theory Spec2Isabelle
  imports Main "HOL-Library.Sublist" "HOL-Library.Multiset" "HOL-Library.Word"
begin

unbundle bit_operations_syntax

section \<open>Strings\<close>

text \<open>
  A Go string is a sequence of bytes, and so is a \<^typ>\<open>string\<close> here. The source uses four
  functions of the package \<open>strings\<close>: \<open>Count\<close>, \<open>HasPrefix\<close>, \<open>TrimPrefix\<close> and
  \<open>TrimSpace\<close>. They belong to Go's standard library and are modelled by what they compute.

  \<open>strings.TrimSpace\<close> removes leading and trailing white space as defined by Unicode: it
  decodes UTF-8 from the front and from the back and stops at the first rune for which
  \<open>unicode.IsSpace\<close> is false. A rune decodes to a white space code point exactly when the
  bytes are that code point's UTF-8 encoding (an invalid byte decodes to U+FFFD, which is
  no white space), so trimming removes, at each end, encodings of the list below as long
  as one is there.
\<close>

definition whiteSpace :: "string list" where
  \<comment> \<open>the UTF-8 encodings of the code points of \<open>unicode.IsSpace\<close>: U+0009..U+000D, U+0020,
      U+0085, U+00A0, U+1680, U+2000..U+200A, U+2028, U+2029, U+202F, U+205F, U+3000\<close>
  "whiteSpace =
    [[CHR 0x09], [CHR 0x0A], [CHR 0x0B], [CHR 0x0C], [CHR 0x0D], [CHR 0x20],
     [CHR 0xC2, CHR 0x85], [CHR 0xC2, CHR 0xA0],
     [CHR 0xE1, CHR 0x9A, CHR 0x80],
     [CHR 0xE2, CHR 0x80, CHR 0x80], [CHR 0xE2, CHR 0x80, CHR 0x81],
     [CHR 0xE2, CHR 0x80, CHR 0x82], [CHR 0xE2, CHR 0x80, CHR 0x83],
     [CHR 0xE2, CHR 0x80, CHR 0x84], [CHR 0xE2, CHR 0x80, CHR 0x85],
     [CHR 0xE2, CHR 0x80, CHR 0x86], [CHR 0xE2, CHR 0x80, CHR 0x87],
     [CHR 0xE2, CHR 0x80, CHR 0x88], [CHR 0xE2, CHR 0x80, CHR 0x89],
     [CHR 0xE2, CHR 0x80, CHR 0x8A],
     [CHR 0xE2, CHR 0x80, CHR 0xA8], [CHR 0xE2, CHR 0x80, CHR 0xA9],
     [CHR 0xE2, CHR 0x80, CHR 0xAF],
     [CHR 0xE2, CHR 0x81, CHR 0x9F],
     [CHR 0xE3, CHR 0x80, CHR 0x80]]"

function TrimLeftSpace :: "string \<Rightarrow> string" where
  "TrimLeftSpace s =
     (case find (\<lambda>w. prefix w s) whiteSpace of
        None \<Rightarrow> s
      | Some w \<Rightarrow> TrimLeftSpace (drop (length w) s))"
  by pat_completeness auto
termination
proof (relation "measure length")
  show "wf (measure length)" by simp
next
  fix s :: string and w
  assume "find (\<lambda>w. prefix w s) whiteSpace = Some w"
  then have "w \<in> set whiteSpace" and "prefix w s"
    by (auto simp: find_Some_iff)
  then have "w \<noteq> []" and "length w \<le> length s"
    by (auto simp: whiteSpace_def prefix_length_le)
  then show "(drop (length w) s, s) \<in> measure length"
    by (cases w) auto
qed

function TrimRightSpace :: "string \<Rightarrow> string" where
  "TrimRightSpace s =
     (case find (\<lambda>w. suffix w s) whiteSpace of
        None \<Rightarrow> s
      | Some w \<Rightarrow> TrimRightSpace (take (length s - length w) s))"
  by pat_completeness auto
termination
proof (relation "measure length")
  show "wf (measure length)" by simp
next
  fix s :: string and w
  assume "find (\<lambda>w. suffix w s) whiteSpace = Some w"
  then have "w \<in> set whiteSpace" and "suffix w s"
    by (auto simp: find_Some_iff)
  then have "w \<noteq> []" and "length w \<le> length s"
    by (auto simp: whiteSpace_def suffix_length_le)
  then show "(take (length s - length w) s, s) \<in> measure length"
    by (cases w) auto
qed

declare TrimLeftSpace.simps [simp del] TrimRightSpace.simps [simp del]

definition TrimSpace :: "string \<Rightarrow> string" where
  "TrimSpace s = TrimRightSpace (TrimLeftSpace s)"

definition HasPrefix :: "string \<Rightarrow> string \<Rightarrow> bool" where
  "HasPrefix s p = prefix p s"

definition TrimPrefix :: "string \<Rightarrow> string \<Rightarrow> string" where
  "TrimPrefix s p = (if HasPrefix s p then drop (length p) s else s)"

definition Separator :: char where
  \<comment> \<open>\<open>filepath.Separator\<close> of a Unix build\<close>
  "Separator = CHR ''/''"

definition Count :: "string \<Rightarrow> char \<Rightarrow> nat" where
  \<comment> \<open>\<open>strings.Count\<close> for a separator of one byte\<close>
  "Count s c = length (filter (\<lambda>x. x = c) s)"

definition depth :: "string \<Rightarrow> nat" where
  "depth path = Count path Separator"

section \<open>Instructions\<close>

datatype instruction =
    Rename string string   \<comment> \<open>\<open>rename{before, after}\<close>\<close>
  | Remove string          \<comment> \<open>\<open>remove{name}\<close>\<close>
  | Copy string string     \<comment> \<open>\<open>copy{from, to}\<close>\<close>

fun String :: "instruction \<Rightarrow> string" where
  "String (Rename b a) = ''rename '' @ b @ [CHR 0x0A] @ ''    -> '' @ a"
| "String (Remove n) = ''remove '' @ n"
| "String (Copy f t) = ''copy '' @ f @ [CHR 0x0A] @ ''  -> '' @ t"

text \<open>The path an instruction was derived from: the trimmed line of the before list.\<close>

fun origin :: "instruction \<Rightarrow> string" where
  "origin (Rename b a) = b"
| "origin (Remove n) = n"
| "origin (Copy f t) = f"

section \<open>Errors and memory\<close>

datatype error =
    Panic string             \<comment> \<open>a run-time panic\<close>
  | Errorf string            \<comment> \<open>an error of the operating system or of a library\<close>
  | Wrap string error        \<comment> \<open>\<open>fmt.Errorf("...: %w", err)\<close>\<close>
  | LineCountMismatch nat nat

text \<open>
  Slices are passed by reference to their backing array. The memory maps the address of
  a backing array to its contents; a slice is the address of its array.
\<close>

type_synonym addr = nat
type_synonym 'a heap = "addr \<Rightarrow> 'a list"

section \<open>The stable sort of parallel slices\<close>

record 'a multiSortable =
  data :: addr
  extra :: "addr list"
  less_fn :: "'a \<Rightarrow> 'a \<Rightarrow> bool"

definition Len :: "'a heap \<Rightarrow> 'a multiSortable \<Rightarrow> nat" where
  "Len h m = length (h (data m))"

definition Less :: "'a heap \<Rightarrow> 'a multiSortable \<Rightarrow> nat \<Rightarrow> nat \<Rightarrow> error + bool" where
  "Less h m i j =
     (if i < length (h (data m)) \<and> j < length (h (data m))
      then Inr (less_fn m (h (data m) ! i) (h (data m) ! j))
      else Inl (Panic ''index out of range''))"

definition swap_in :: "addr \<Rightarrow> nat \<Rightarrow> nat \<Rightarrow> 'a heap \<Rightarrow> error + 'a heap" where
  \<comment> \<open>\<open>d[i], d[j] = d[j], d[i]\<close>\<close>
  "swap_in d i j h =
     (if i < length (h d) \<and> j < length (h d)
      then Inr (h(d := (h d)[i := h d ! j, j := h d ! i]))
      else Inl (Panic ''index out of range''))"

fun swap_each :: "addr list \<Rightarrow> nat \<Rightarrow> nat \<Rightarrow> 'a heap \<Rightarrow> error + 'a heap" where
  "swap_each [] i j h = Inr h"
| "swap_each (d # ds) i j h =
     (case swap_in d i j h of Inl e \<Rightarrow> Inl e | Inr h' \<Rightarrow> swap_each ds i j h')"

definition Swap :: "'a heap \<Rightarrow> 'a multiSortable \<Rightarrow> nat \<Rightarrow> nat \<Rightarrow> error + 'a heap" where
  "Swap h m i j = swap_each (data m # extra m) i j h"

text \<open>
  \<open>sort.Stable\<close> is Go's standard library. It sorts through \<open>Len\<close>, \<open>Less\<close> and \<open>Swap\<close>
  alone: insertion sort on blocks of 20 elements, then in-place merges of the blocks.
  It is modelled by its insertion sort over the whole range, which is the library's
  computation for up to 20 elements; for a comparison that is a strict weak order (as
  the one of \<open>parseInstructions\<close> is) the result of a stable sort is unique, so that the
  merges of longer inputs end in the same slices (lemma \<open>stable_sort_unique\<close> below).
\<close>

fun insertionSort_inner :: "'a heap \<Rightarrow> 'a multiSortable \<Rightarrow> nat \<Rightarrow> nat \<Rightarrow> error + 'a heap" where
  \<comment> \<open>\<open>for j := i; j > a && data.Less(j, j-1); j-- { data.Swap(j, j-1) }\<close>\<close>
  "insertionSort_inner h m a 0 = Inr h"
| "insertionSort_inner h m a (Suc j) =
     (if a < Suc j then
        (case Less h m (Suc j) j of
           Inl e \<Rightarrow> Inl e
         | Inr True \<Rightarrow>
             (case Swap h m (Suc j) j of
                Inl e \<Rightarrow> Inl e
              | Inr h' \<Rightarrow> insertionSort_inner h' m a j)
         | Inr False \<Rightarrow> Inr h)
      else Inr h)"

function insertionSort_outer ::
  "'a heap \<Rightarrow> 'a multiSortable \<Rightarrow> nat \<Rightarrow> nat \<Rightarrow> nat \<Rightarrow> error + 'a heap" where
  \<comment> \<open>\<open>for i := a + 1; i < b; i++ { ... }\<close>, entered at \<open>i\<close>\<close>
  "insertionSort_outer h m a b i =
     (if i < b then
        (case insertionSort_inner h m a i of
           Inl e \<Rightarrow> Inl e
         | Inr h' \<Rightarrow> insertionSort_outer h' m a b (Suc i))
      else Inr h)"
  by pat_completeness auto
termination
  by (relation "measure (\<lambda>(h, m, a, b, i). b - i)") auto

declare insertionSort_outer.simps [simp del]

definition insertionSort :: "'a heap \<Rightarrow> 'a multiSortable \<Rightarrow> nat \<Rightarrow> nat \<Rightarrow> error + 'a heap" where
  "insertionSort h m a b = insertionSort_outer h m a b (a + 1)"

definition Stable :: "'a heap \<Rightarrow> 'a multiSortable \<Rightarrow> error + 'a heap" where
  "Stable h m = insertionSort h m 0 (Len h m)"

definition multiSortStable ::
  "'a heap \<Rightarrow> addr \<Rightarrow> addr list \<Rightarrow> ('a \<Rightarrow> 'a \<Rightarrow> bool) \<Rightarrow> error + 'a heap" where
  "multiSortStable h d ex ls = Stable h \<lparr>data = d, extra = ex, less_fn = ls\<rparr>"

section \<open>Classification\<close>

definition cmdCopy :: string where
  "cmdCopy = ''copy''"

definition classify :: "string \<Rightarrow> string \<Rightarrow> instruction list \<Rightarrow> instruction list" where
  \<comment> \<open>the \<open>switch\<close> of the loop, on the lines \<open>b = before[i]\<close> and \<open>a = after[i]\<close>\<close>
  "classify b a instructions =
     (let before = TrimSpace b; after = TrimSpace a in
      if HasPrefix after (cmdCopy @ '' '')
        then instructions @ [Copy before (TrimSpace (TrimPrefix after cmdCopy))]
      else if after = []
        then instructions @ [Remove before]
      else if after \<noteq> before
        then instructions @ [Rename before after]
      else instructions)"

fun classify_loop ::
  "string list \<Rightarrow> string list \<Rightarrow> nat list \<Rightarrow> instruction list \<Rightarrow> error + instruction list" where
  \<comment> \<open>\<open>for i := range before\<close>, over the indices still to visit\<close>
  "classify_loop bs as [] instructions = Inr instructions"
| "classify_loop bs as (i # is) instructions =
     (if i < length bs \<and> i < length as
      then classify_loop bs as is (classify (bs ! i) (as ! i) instructions)
      else Inl (Panic ''index out of range''))"

definition parseInstructions ::
  "string heap \<Rightarrow> addr \<Rightarrow> addr \<Rightarrow> error + (instruction list \<times> string heap)" where
  "parseInstructions h before after =
     (case multiSortStable h before [after] (\<lambda>a b. depth a > depth b) of
        Inl e \<Rightarrow> Inl e
      | Inr h' \<Rightarrow>
          (case classify_loop (h' before) (h' after) [0..<length (h' before)] [] of
             Inl e \<Rightarrow> Inl e
           | Inr instructions \<Rightarrow> Inr (instructions, h')))"

text \<open>The instructions the \<open>switch\<close> appends for one pair of lines.\<close>

definition emitted :: "string \<Rightarrow> string \<Rightarrow> instruction list" where
  "emitted b a = classify b a []"

section \<open>The operating system\<close>

text \<open>
  \<open>os.FileMode\<close>: 32 bits, the type of the file in the upper ones (\<open>io/fs\<close>).
  A file is regular when no type bit is set.
\<close>

type_synonym FileMode = "32 word"

definition ModeDir :: FileMode where "ModeDir = push_bit 31 1"
definition ModeSymlink :: FileMode where "ModeSymlink = push_bit 27 1"
definition ModeDevice :: FileMode where "ModeDevice = push_bit 26 1"
definition ModeNamedPipe :: FileMode where "ModeNamedPipe = push_bit 25 1"
definition ModeSocket :: FileMode where "ModeSocket = push_bit 24 1"
definition ModeCharDevice :: FileMode where "ModeCharDevice = push_bit 21 1"
definition ModeIrregular :: FileMode where "ModeIrregular = push_bit 19 1"

definition ModeType :: FileMode where
  "ModeType = ModeDir OR ModeSymlink OR ModeNamedPipe OR ModeSocket OR ModeDevice
     OR ModeCharDevice OR ModeIrregular"

definition IsDir :: "FileMode \<Rightarrow> bool" where
  "IsDir m \<longleftrightarrow> m AND ModeDir \<noteq> 0"

definition IsRegular :: "FileMode \<Rightarrow> bool" where
  "IsRegular m \<longleftrightarrow> m AND ModeType = 0"

text \<open>
  The program reaches the world outside through the packages \<open>os\<close>, \<open>os/exec\<close>,
  \<open>bufio\<close> and \<open>path/filepath\<close>. Their operations are the fields of a record, over any
  type \<open>'w\<close> of states of the world; each one returns its result and the next state.
  \<open>os_Stat\<close> gives the mode of the \<open>FileInfo\<close> (the source reads \<open>Mode()\<close> and
  \<open>IsDir()\<close> of it only). \<open>scanner_Scan\<close> is the whole loop over a \<open>bufio.Scanner\<close>:
  the lines for which \<open>Scan\<close> returned true, and what \<open>Err\<close> would then return.
\<close>

record 'w sys =
  os_CreateTemp :: "string \<Rightarrow> 'w \<Rightarrow> (error + string) \<times> 'w"
  tmp_WriteString :: "string \<Rightarrow> string \<Rightarrow> 'w \<Rightarrow> error option \<times> 'w"
  cmd_Run :: "string \<Rightarrow> string \<Rightarrow> 'w \<Rightarrow> error option \<times> 'w"
  tmp_Seek :: "string \<Rightarrow> 'w \<Rightarrow> error option \<times> 'w"
  scanner_Scan :: "string \<Rightarrow> 'w \<Rightarrow> (string list \<times> error option) \<times> 'w"
  tmp_Close :: "string \<Rightarrow> 'w \<Rightarrow> error option \<times> 'w"
  os_Remove :: "string \<Rightarrow> 'w \<Rightarrow> error option \<times> 'w"
  os_MkdirAll :: "string \<Rightarrow> FileMode \<Rightarrow> 'w \<Rightarrow> error option \<times> 'w"
  os_Rename :: "string \<Rightarrow> string \<Rightarrow> 'w \<Rightarrow> error option \<times> 'w"
  os_RemoveAll :: "string \<Rightarrow> 'w \<Rightarrow> error option \<times> 'w"
  os_Stat :: "string \<Rightarrow> 'w \<Rightarrow> (error + FileMode) \<times> 'w"
  os_ReadFile :: "string \<Rightarrow> 'w \<Rightarrow> (error + string) \<times> 'w"
  os_WriteFile :: "string \<Rightarrow> string \<Rightarrow> FileMode \<Rightarrow> 'w \<Rightarrow> error option \<times> 'w"
  filepath_Dir :: "string \<Rightarrow> string"

section \<open>Executing an instruction\<close>

fun Execute :: "'w sys \<Rightarrow> instruction \<Rightarrow> 'w \<Rightarrow> error option \<times> 'w" where
  \<comment> \<open>\<open>0x1ED\<close> is the mode \<open>0755\<close>\<close>
  "Execute sys (Rename before after) w =
     (case os_MkdirAll sys (filepath_Dir sys after) 0x1ED w of
        (Some err, w1) \<Rightarrow> (Some (Wrap ''exe mkdirall'' err), w1)
      | (None, w1) \<Rightarrow>
          (case os_Rename sys before after w1 of
             (Some err, w2) \<Rightarrow> (Some (Wrap ''exe rename'' err), w2)
           | (None, w2) \<Rightarrow> (None, w2)))"
| "Execute sys (Remove name) w =
     (case os_RemoveAll sys name w of
        (Some err, w1) \<Rightarrow> (Some (Wrap ''exe remove all'' err), w1)
      | (None, w1) \<Rightarrow> (None, w1))"
| "Execute sys (Copy from to) w =
     (case os_Stat sys from w of
        (Inl err, w1) \<Rightarrow> (Some (Wrap ''exe stat'' err), w1)
      | (Inr stat, w1) \<Rightarrow>
          if IsDir stat then
            (case os_MkdirAll sys to stat w1 of
               (Some err, w2) \<Rightarrow> (Some (Wrap ''exe mkdirall'' err), w2)
             | (None, w2) \<Rightarrow> (None, w2))
          else
            (case os_Stat sys (filepath_Dir sys from) w1 of
               (Inl err, w2) \<Rightarrow> (Some (Wrap ''exe stat'' err), w2)
             | (Inr parentStat, w2) \<Rightarrow>
                 (case os_MkdirAll sys (filepath_Dir sys to) parentStat w2 of
                    (Some err, w3) \<Rightarrow> (Some (Wrap ''exe mkdirall'' err), w3)
                  | (None, w3) \<Rightarrow>
                      (case os_ReadFile sys from w3 of
                         (Inl err, w4) \<Rightarrow> (Some (Wrap ''exe read'' err), w4)
                       | (Inr input, w4) \<Rightarrow>
                           (case os_WriteFile sys to input stat w4 of
                              (Some err, w5) \<Rightarrow> (Some (Wrap ''exe write'' err), w5)
                            | (None, w5) \<Rightarrow> (None, w5))))))"

section \<open>The run\<close>

text \<open>
  The memory of the program: the backing arrays, and the first address not yet in use.
  \<open>editPaths\<close> builds the slice \<open>after\<close> by \<open>append\<close>; the model allocates it at once.
\<close>

record memory =
  arrays :: "string heap"
  next_free :: addr

definition new_slice :: "string list \<Rightarrow> memory \<Rightarrow> addr \<times> memory" where
  "new_slice xs mem =
     (next_free mem,
      mem\<lparr>arrays := (arrays mem)(next_free mem := xs), next_free := Suc (next_free mem)\<rparr>)"

definition program :: string where
  "program = ''vi-paths''"

fun write_names :: "'w sys \<Rightarrow> string \<Rightarrow> string list \<Rightarrow> 'w \<Rightarrow> 'w" where
  \<comment> \<open>\<open>for _, name := range before { tmp.WriteString(name + "\n") }\<close>: the results of
      \<open>WriteString\<close> are not looked at\<close>
  "write_names sys tmp [] w = w"
| "write_names sys tmp (name # names) w =
     write_names sys tmp names (snd (tmp_WriteString sys tmp (name @ [CHR 0x0A]) w))"

definition editPaths ::
  "'w sys \<Rightarrow> string \<Rightarrow> string \<Rightarrow> addr \<Rightarrow> memory \<Rightarrow> 'w \<Rightarrow> (error + addr) \<times> memory \<times> 'w" where
  \<comment> \<open>the result of \<open>tmp.Seek\<close> is not looked at, and \<open>Err\<close> of the scanner is not called:
      of what \<open>scanner_Scan\<close> returns, only the lines are used\<close>
  "editPaths sys tmp editor before mem w =
     (let w1 = write_names sys tmp (arrays mem before) w in
      case cmd_Run sys editor tmp w1 of
        (Some err, w2) \<Rightarrow> (Inl (Wrap (''running '' @ editor) err), mem, w2)
      | (None, w2) \<Rightarrow>
          (let w3 = snd (tmp_Seek sys tmp w2);
               (scanned, w4) = scanner_Scan sys tmp w3;
               (after, mem') = new_slice (fst scanned) mem
           in (Inr after, mem', w4)))"

fun execute_all ::
  "'w sys \<Rightarrow> bool \<Rightarrow> instruction list \<Rightarrow> string list \<Rightarrow> 'w \<Rightarrow> error option \<times> string list \<times> 'w" where
  \<comment> \<open>\<open>for _, instruction := range instructions\<close>; \<open>logged\<close> are the lines of \<open>log.Printf\<close>\<close>
  "execute_all sys dryRun [] logged w = (None, logged, w)"
| "execute_all sys dryRun (instruction # rest) logged w =
     (let logged' = logged @ [String instruction] in
      if dryRun then execute_all sys dryRun rest logged' w
      else
        (case Execute sys instruction w of
           (Some err, w') \<Rightarrow> (Some (Wrap ''executing'' err), logged', w')
         | (None, w') \<Rightarrow> execute_all sys dryRun rest logged' w'))"

definition run_body ::
  "'w sys \<Rightarrow> string \<Rightarrow> addr \<Rightarrow> string \<Rightarrow> bool \<Rightarrow> memory \<Rightarrow> 'w \<Rightarrow>
     error option \<times> string list \<times> memory \<times> 'w" where
  \<comment> \<open>\<open>run\<close> from the call of \<open>editPaths\<close> to its \<open>return\<close>. The error that
      \<open>parseInstructions\<close> returns is always \<open>nil\<close>, so \<open>Inl\<close> of it is a panic, which
      unwinds through \<open>run\<close>.\<close>
  "run_body sys tmp before editor dryRun mem w =
     (case editPaths sys tmp editor before mem w of
        (Inl err, mem1, w1) \<Rightarrow> (Some (Wrap ''editing paths'' err), [], mem1, w1)
      | (Inr after, mem1, w1) \<Rightarrow>
          if length (arrays mem1 after) \<noteq> length (arrays mem1 before) then
            (Some (LineCountMismatch (length (arrays mem1 before)) (length (arrays mem1 after))),
             [], mem1, w1)
          else
            (case parseInstructions (arrays mem1) before after of
               Inl err \<Rightarrow> (Some err, [], mem1, w1)
             | Inr (instructions, h') \<Rightarrow>
                 (case execute_all sys dryRun instructions [] w1 of
                    (err, logged, w2) \<Rightarrow> (err, logged, mem1\<lparr>arrays := h'\<rparr>, w2))))"

definition run ::
  "'w sys \<Rightarrow> addr \<Rightarrow> string \<Rightarrow> bool \<Rightarrow> memory \<Rightarrow> 'w \<Rightarrow>
     error option \<times> string list \<times> memory \<times> 'w" where
  \<comment> \<open>the pattern of \<open>os.CreateTemp\<close> is \<open>filepath.Base(program)\<close>, that is \<open>program\<close>;
      the two \<open>defer\<close>red calls run last, \<open>tmp.Close()\<close> first; their results are dropped\<close>
  "run sys before editor dryRun mem w =
     (case os_CreateTemp sys program w of
        (Inl err, w1) \<Rightarrow> (Some (Wrap ''creating temp file'' err), [], mem, w1)
      | (Inr tmp, w1) \<Rightarrow>
          (case run_body sys tmp before editor dryRun mem w1 of
             (err, logged, mem', w2) \<Rightarrow>
               (err, logged, mem',
                snd (os_Remove sys tmp (snd (tmp_Close sys tmp w2))))))"

text \<open>
  \<open>main\<close> reads the flags, the arguments and \<open>$EDITOR\<close>, calls \<open>run\<close> and reports the error
  it returns with \<open>log.Fatalf\<close>: when \<open>run\<close> returns no error, nothing is reported.
\<close>

section \<open>Notions of the properties\<close>

text \<open>The lines of the two slices, pair by pair.\<close>

definition pairs :: "'a heap \<Rightarrow> addr \<Rightarrow> addr \<Rightarrow> ('a \<times> 'a) list" where
  "pairs h b a = zip (h b) (h a)"

text \<open>
  The stable sort of pairs by descending depth of the first component, written with the
  sort of the HOL library: reversing before and after turns its ascending stable sort
  into a descending stable one.
\<close>

definition byDepth :: "(string \<times> string) list \<Rightarrow> (string \<times> string) list" where
  "byDepth ps = rev (sort_key (\<lambda>p. depth (fst p)) (rev ps))"

text \<open>A string of white space only: a sequence of encoded white space code points.\<close>

inductive whitespace_only :: "string \<Rightarrow> bool" where
  none: "whitespace_only []"
| more: "w \<in> set whiteSpace \<Longrightarrow> whitespace_only s \<Longrightarrow> whitespace_only (w @ s)"

section \<open>A scripted operating system\<close>

text \<open>
  An operating system for the examples: the state of the world is the list of the calls
  made so far. \<open>fails\<close> says which calls fail, \<open>edited\<close> and \<open>scan_err\<close> are what the
  scanner finds in the buffer once the editor has exited, \<open>mode\<close> is the mode of every path.
\<close>

definition call :: "(string \<Rightarrow> bool) \<Rightarrow> string \<Rightarrow> string list \<Rightarrow> error option \<times> string list" where
  "call fails c w = (if fails c then Some (Errorf c) else None, w @ [c])"

definition call_value ::
  "(string \<Rightarrow> bool) \<Rightarrow> string \<Rightarrow> 'a \<Rightarrow> string list \<Rightarrow> (error + 'a) \<times> string list" where
  "call_value fails c v w = (if fails c then Inl (Errorf c) else Inr v, w @ [c])"

definition dir_of :: "string \<Rightarrow> string" where
  \<comment> \<open>the directory of a clean relative path\<close>
  "dir_of path =
     (if Separator \<in> set path
      then rev (drop 1 (dropWhile (\<lambda>c. c \<noteq> Separator) (rev path)))
      else ''.'')"

definition scripted ::
  "string list \<Rightarrow> error option \<Rightarrow> (string \<Rightarrow> bool) \<Rightarrow> (string \<Rightarrow> FileMode) \<Rightarrow> string list sys" where
  "scripted edited scan_err fails mode =
     \<lparr>os_CreateTemp = (\<lambda>pattern. call_value fails ''CreateTemp'' (''/tmp/'' @ pattern)),
      tmp_WriteString = (\<lambda>tmp s. call fails (''WriteString '' @ s)),
      cmd_Run = (\<lambda>editor tmp. call fails (''Run '' @ editor)),
      tmp_Seek = (\<lambda>tmp. call fails ''Seek''),
      scanner_Scan = (\<lambda>tmp w. ((edited, scan_err), w @ [''Scan''])),
      tmp_Close = (\<lambda>tmp. call fails ''Close''),
      os_Remove = (\<lambda>name. call fails (''Remove '' @ name)),
      os_MkdirAll = (\<lambda>path perm. call fails (''MkdirAll '' @ path)),
      os_Rename = (\<lambda>old new. call fails (''Rename '' @ old @ '' '' @ new)),
      os_RemoveAll = (\<lambda>path. call fails (''RemoveAll '' @ path)),
      os_Stat = (\<lambda>name. call_value fails (''Stat '' @ name) (mode name)),
      os_ReadFile = (\<lambda>name. call_value fails (''ReadFile '' @ name) ''contents''),
      os_WriteFile = (\<lambda>name bytes perm. call fails (''WriteFile '' @ name)),
      filepath_Dir = dir_of\<rparr>"

definition modes :: "string \<Rightarrow> FileMode" where
  \<comment> \<open>the modes of the paths of the examples: a regular file, a named pipe, directories\<close>
  "modes p = (if p = ''file'' then 0x1A4
              else if p = ''pipe'' then ModeNamedPipe OR 0x1A4
              else ModeDir OR 0x1ED)"

section \<open>Trimming\<close>

lemma whiteSpace_no_separator: "w \<in> set whiteSpace \<Longrightarrow> Separator \<notin> set w"
  by (auto simp: whiteSpace_def Separator_def)

lemma whiteSpace_nonempty: "w \<in> set whiteSpace \<Longrightarrow> w \<noteq> []"
  by (auto simp: whiteSpace_def)

lemma depth_append: "depth (xs @ ys) = depth xs + depth ys"
  by (simp add: depth_def Count_def)

lemma depth_whiteSpace: "w \<in> set whiteSpace \<Longrightarrow> depth w = 0"
  using whiteSpace_no_separator[of w] by (auto simp: depth_def Count_def filter_empty_conv)

lemma depth_TrimLeftSpace: "depth (TrimLeftSpace s) = depth s"
proof (induction s rule: TrimLeftSpace.induct)
  case (1 s)
  show ?case
  proof (cases "find (\<lambda>w. prefix w s) whiteSpace")
    case None
    then show ?thesis by (simp add: TrimLeftSpace.simps[of s])
  next
    case (Some w)
    then have w: "w \<in> set whiteSpace" "prefix w s"
      by (auto simp: find_Some_iff)
    then have "s = w @ drop (length w) s"
      by (auto simp: prefix_def)
    then have "depth s = depth w + depth (drop (length w) s)"
      by (metis depth_append)
    then have "depth (drop (length w) s) = depth s"
      using w(1) by (simp add: depth_whiteSpace)
    then show ?thesis
      using 1[OF Some] Some by (simp add: TrimLeftSpace.simps[of s])
  qed
qed

lemma depth_TrimRightSpace: "depth (TrimRightSpace s) = depth s"
proof (induction s rule: TrimRightSpace.induct)
  case (1 s)
  show ?case
  proof (cases "find (\<lambda>w. suffix w s) whiteSpace")
    case None
    then show ?thesis by (simp add: TrimRightSpace.simps[of s])
  next
    case (Some w)
    then have w: "w \<in> set whiteSpace" "suffix w s"
      by (auto simp: find_Some_iff)
    then have "s = take (length s - length w) s @ w"
      by (auto simp: suffix_def)
    then have "depth s = depth (take (length s - length w) s) + depth w"
      by (metis depth_append)
    then have "depth (take (length s - length w) s) = depth s"
      using w(1) by (simp add: depth_whiteSpace)
    then show ?thesis
      using 1[OF Some] Some by (simp add: TrimRightSpace.simps[of s])
  qed
qed

lemma depth_TrimSpace: "depth (TrimSpace s) = depth s"
  by (simp add: TrimSpace_def depth_TrimLeftSpace depth_TrimRightSpace)

lemma whiteSpace_prefix_free:
  "v \<in> set whiteSpace \<Longrightarrow> w \<in> set whiteSpace \<Longrightarrow> prefix v w \<Longrightarrow> v = w"
proof -
  have "\<forall>v \<in> set whiteSpace. \<forall>w \<in> set whiteSpace. prefix v w \<longrightarrow> v = w"
    by code_simp
  then show "v \<in> set whiteSpace \<Longrightarrow> w \<in> set whiteSpace \<Longrightarrow> prefix v w \<Longrightarrow> v = w"
    by blast
qed

lemma TrimRightSpace_Nil: "TrimRightSpace [] = []"
  by (simp add: TrimRightSpace.simps[of "[]"] whiteSpace_def)

lemma TrimLeftSpace_whiteSpace:
  assumes "w \<in> set whiteSpace"
  shows "TrimLeftSpace (w @ s) = TrimLeftSpace s"
proof -
  have "find (\<lambda>v. prefix v (w @ s)) whiteSpace \<noteq> None"
    using assms by (auto simp: find_None_iff)
  then obtain v where v: "find (\<lambda>v. prefix v (w @ s)) whiteSpace = Some v"
    by blast
  then have vw: "v \<in> set whiteSpace" "prefix v (w @ s)"
    by (auto simp: find_Some_iff)
  then have "prefix v w \<or> prefix w v"
    by (metis prefix_same_cases prefixI)
  then have "v = w"
    using whiteSpace_prefix_free[OF vw(1) assms] whiteSpace_prefix_free[OF assms vw(1)] by auto
  then show ?thesis
    using v by (simp add: TrimLeftSpace.simps[of "w @ s"])
qed

lemma whitespace_only_TrimLeftSpace: "whitespace_only s \<Longrightarrow> TrimLeftSpace s = []"
proof (induction rule: whitespace_only.induct)
  case none
  show ?case by (simp add: TrimLeftSpace.simps[of "[]"] whiteSpace_def)
next
  case (more w s)
  then show ?case by (simp add: TrimLeftSpace_whiteSpace)
qed

lemma whitespace_only_TrimSpace: "whitespace_only s \<Longrightarrow> TrimSpace s = []"
  by (simp add: TrimSpace_def whitespace_only_TrimLeftSpace TrimRightSpace_Nil)

lemma TrimSpace_space: "TrimSpace (CHR '' '' # s) = TrimSpace s"
proof -
  have "[CHR '' ''] \<in> set whiteSpace" by (simp add: whiteSpace_def)
  from TrimLeftSpace_whiteSpace[OF this, of s] show ?thesis
    by (simp add: TrimSpace_def)
qed

section \<open>The sort, in terms of the pairs of lines\<close>

lemma Swap_two:
  assumes "b \<noteq> a" "length (h a) = length (h b)" "i < length (h b)" "j < length (h b)"
  shows "Swap h \<lparr>data = b, extra = [a], less_fn = ls\<rparr> i j =
           Inr (h(b := (h b)[i := h b ! j, j := h b ! i], a := (h a)[i := h a ! j, j := h a ! i]))"
  using assms by (simp add: Swap_def swap_in_def)

lemma pairs_Swap:
  assumes "b \<noteq> a" "length (h a) = length (h b)" "i < length (h b)" "j < length (h b)"
  shows "pairs (h(b := (h b)[i := h b ! j, j := h b ! i], a := (h a)[i := h a ! j, j := h a ! i])) b a
     = (pairs h b a)[i := pairs h b a ! j, j := pairs h b a ! i]"
  using assms by (simp add: pairs_def update_zip)

lemma swap_adjacent:
  assumes "Suc j < length ps"
  shows "take j (ps[Suc j := ps ! j, j := ps ! Suc j]) = take j ps"
    and "drop (Suc j) (ps[Suc j := ps ! j, j := ps ! Suc j]) = ps ! j # drop (Suc (Suc j)) ps"
    and "ps[Suc j := ps ! j, j := ps ! Suc j] ! j = ps ! Suc j"
  using assms by (simp_all add: drop_update_swap Cons_nth_drop_Suc[symmetric] list_update_swap)

lemma sift_swap:
  fixes f :: "'p \<Rightarrow> 'k::linorder"
  assumes "Suc j < length ps" 
    and "rev (take (Suc j) ps') = insort_key f (ps ! Suc j) (rev (take j ps))"
    and "drop (Suc j) ps' = ps ! j # drop (Suc (Suc j)) ps"
    and "\<not> f (ps ! Suc j) \<le> f (ps ! j)"
    and "length ps' = length ps"
  shows "rev (take (Suc (Suc j)) ps') = insort_key f (ps ! Suc j) (rev (take (Suc j) ps))"
    and "drop (Suc (Suc j)) ps' = drop (Suc (Suc j)) ps"
proof -
  have "drop (Suc j) ps' = ps' ! Suc j # drop (Suc (Suc j)) ps'"
    using assms(1,5) by (simp add: Cons_nth_drop_Suc)
  with assms(3) have n: "ps' ! Suc j = ps ! j" and d2: "drop (Suc (Suc j)) ps' = drop (Suc (Suc j)) ps"
    by simp_all
  show "drop (Suc (Suc j)) ps' = drop (Suc (Suc j)) ps" by (rule d2)
  have "take (Suc (Suc j)) ps' = take (Suc j) ps' @ [ps' ! Suc j]"
    using assms(1,5) by (simp add: take_Suc_conv_app_nth)
  then have "rev (take (Suc (Suc j)) ps') = ps ! j # insort_key f (ps ! Suc j) (rev (take j ps))"
    using assms(2) n by simp
  moreover have "rev (take (Suc j) ps) = ps ! j # rev (take j ps)"
    using assms(1) by (simp add: take_Suc_conv_app_nth)
  ultimately show "rev (take (Suc (Suc j)) ps') = insort_key f (ps ! Suc j) (rev (take (Suc j) ps))"
    using assms(4) by simp
qed

lemma sift_stop:
  fixes f :: "'p \<Rightarrow> 'k::linorder"
  assumes "Suc j < length ps" and "f (ps ! Suc j) \<le> f (ps ! j)"
  shows "rev (take (Suc (Suc j)) ps) = insort_key f (ps ! Suc j) (rev (take (Suc j) ps))"
  using assms by (simp add: take_Suc_conv_app_nth)

lemma inner_sift:
  fixes g :: "'a \<Rightarrow> 'k::linorder"
  assumes "b \<noteq> a"
  shows "length (h a) = length (h b) \<Longrightarrow> j < length (h b) \<Longrightarrow>
    \<exists>h'. insertionSort_inner h \<lparr>data = b, extra = [a], less_fn = (\<lambda>x y. g y < g x)\<rparr> 0 j = Inr h'
       \<and> (\<forall>x. x \<noteq> a \<and> x \<noteq> b \<longrightarrow> h' x = h x)
       \<and> length (h' b) = length (h b) \<and> length (h' a) = length (h b)
       \<and> rev (take (Suc j) (pairs h' b a)) =
           insort_key (\<lambda>p. g (fst p)) (pairs h b a ! j) (rev (take j (pairs h b a)))
       \<and> drop (Suc j) (pairs h' b a) = drop (Suc j) (pairs h b a)"
proof (induction j arbitrary: h)
  case 0
  then have "pairs h b a \<noteq> []" by (auto simp: pairs_def)
  with 0 show ?case
    by (cases "pairs h b a") auto
next
  case (Suc j)
  let ?m = "\<lparr>data = b, extra = [a], less_fn = (\<lambda>x y. g y < g x)\<rparr>"
  let ?ps = "pairs h b a"
  have len: "Suc j < length ?ps" using Suc.prems by (simp add: pairs_def)
  have fstj: "fst (?ps ! j) = h b ! j" "fst (?ps ! Suc j) = h b ! Suc j"
    using Suc.prems by (simp_all add: pairs_def)
  have L: "Less h ?m (Suc j) j = Inr (g (h b ! j) < g (h b ! Suc j))"
    using Suc.prems by (simp add: Less_def)
  show ?case
  proof (cases "g (h b ! j) < g (h b ! Suc j)")
    case True
    let ?h1 = "h(b := (h b)[Suc j := h b ! j, j := h b ! Suc j],
                 a := (h a)[Suc j := h a ! j, j := h a ! Suc j])"
    have S: "Swap h ?m (Suc j) j = Inr ?h1"
      using Suc.prems assms by (simp add: Swap_two)
    have p1: "pairs ?h1 b a = ?ps[Suc j := ?ps ! j, j := ?ps ! Suc j]"
      using Suc.prems assms by (simp add: pairs_Swap)
    have l1: "length (?h1 a) = length (?h1 b)" "j < length (?h1 b)" "length (?h1 b) = length (h b)"
      using Suc.prems assms by simp_all
    from Suc.IH[OF l1(1,2)] obtain h' where
      h': "insertionSort_inner ?h1 ?m 0 j = Inr h'"
      "\<forall>x. x \<noteq> a \<and> x \<noteq> b \<longrightarrow> h' x = ?h1 x"
      "length (h' b) = length (?h1 b)" "length (h' a) = length (?h1 b)"
      "rev (take (Suc j) (pairs h' b a)) =
         insort_key (\<lambda>p. g (fst p)) (pairs ?h1 b a ! j) (rev (take j (pairs ?h1 b a)))"
      "drop (Suc j) (pairs h' b a) = drop (Suc j) (pairs ?h1 b a)"
      by blast
    have lp: "length (pairs h' b a) = length ?ps"
      using h'(3,4) l1(3) Suc.prems by (simp add: pairs_def)
    have ng: "\<not> (\<lambda>p. g (fst p)) (?ps ! Suc j) \<le> (\<lambda>p. g (fst p)) (?ps ! j)"
      using True fstj by simp
    have A: "rev (take (Suc j) (pairs h' b a)) =
        insort_key (\<lambda>p. g (fst p)) (?ps ! Suc j) (rev (take j ?ps))"
      using h'(5) by (simp only: p1 swap_adjacent[OF len])
    have B: "drop (Suc j) (pairs h' b a) = ?ps ! j # drop (Suc (Suc j)) ?ps"
      using h'(6) by (simp only: p1 swap_adjacent[OF len])
    have "rev (take (Suc (Suc j)) (pairs h' b a)) =
            insort_key (\<lambda>p. g (fst p)) (?ps ! Suc j) (rev (take (Suc j) ?ps))"
      by (rule sift_swap(1)[OF len A B ng lp])
    moreover have "drop (Suc (Suc j)) (pairs h' b a) = drop (Suc (Suc j)) ?ps"
      by (rule sift_swap(2)[OF len A B ng lp])
    moreover have "insertionSort_inner h ?m 0 (Suc j) = Inr h'"
      using L S True h'(1) by simp
    moreover have "\<forall>x. x \<noteq> a \<and> x \<noteq> b \<longrightarrow> h' x = h x"
      using h'(2) by simp
    moreover have "length (h' b) = length (h b)" "length (h' a) = length (h b)"
      using h'(3,4) l1(3) by simp_all
    ultimately show ?thesis
      by blast
  next
    case False
    then have "insertionSort_inner h ?m 0 (Suc j) = Inr h"
      using L by simp
    moreover have "(\<lambda>p. g (fst p)) (?ps ! Suc j) \<le> (\<lambda>p. g (fst p)) (?ps ! j)"
      using False fstj by simp
    then have "rev (take (Suc (Suc j)) ?ps) =
        insort_key (\<lambda>p. g (fst p)) (?ps ! Suc j) (rev (take (Suc j) ?ps))"
      by (rule sift_stop[OF len])
    ultimately show ?thesis
      using Suc.prems by simp
  qed
qed

lemma outer_sort:
  fixes g :: "'a \<Rightarrow> 'k::linorder"
  assumes "b \<noteq> a"
  shows "length (h a) = n \<Longrightarrow> length (h b) = n \<Longrightarrow> length ps0 = n \<Longrightarrow> i \<le> n \<Longrightarrow>
    rev (take i (pairs h b a)) = sort_key (\<lambda>p. g (fst p)) (rev (take i ps0)) \<Longrightarrow>
    drop i (pairs h b a) = drop i ps0 \<Longrightarrow>
    \<exists>h'. insertionSort_outer h \<lparr>data = b, extra = [a], less_fn = (\<lambda>x y. g y < g x)\<rparr> 0 n i = Inr h'
       \<and> (\<forall>x. x \<noteq> a \<and> x \<noteq> b \<longrightarrow> h' x = h x)
       \<and> length (h' b) = n \<and> length (h' a) = n
       \<and> pairs h' b a = rev (sort_key (\<lambda>p. g (fst p)) (rev ps0))"
proof (induction "n - i" arbitrary: h i)
  case 0
  then have "i = n" by simp
  with 0 have "rev (pairs h b a) = sort_key (\<lambda>p. g (fst p)) (rev ps0)"
    by (simp add: pairs_def)
  then have "pairs h b a = rev (sort_key (\<lambda>p. g (fst p)) (rev ps0))"
    by (simp add: rev_swap)
  then show ?case
    using 0 \<open>i = n\<close> by (simp add: insertionSort_outer.simps)
next
  case (Suc d)
  let ?m = "\<lparr>data = b, extra = [a], less_fn = (\<lambda>x y. g y < g x)\<rparr>"
  have i: "i < n" using Suc.hyps(2) by simp
  then have ilen: "i < length (h b)" and eq: "length (h a) = length (h b)"
    using Suc.prems by simp_all
  from inner_sift[OF assms eq ilen, where g = g] obtain h1 where
    h1: "insertionSort_inner h ?m 0 i = Inr h1"
      "\<forall>x. x \<noteq> a \<and> x \<noteq> b \<longrightarrow> h1 x = h x"
      "length (h1 b) = length (h b)" "length (h1 a) = length (h b)"
      "rev (take (Suc i) (pairs h1 b a)) =
         insort_key (\<lambda>p. g (fst p)) (pairs h b a ! i) (rev (take i (pairs h b a)))"
      "drop (Suc i) (pairs h1 b a) = drop (Suc i) (pairs h b a)"
    by blast
  have lp: "length (pairs h b a) = n" using Suc.prems by (simp add: pairs_def)
  have "pairs h b a ! i = ps0 ! i"
    using Suc.prems(6) i lp Suc.prems(3) by (metis Cons_nth_drop_Suc list.inject)
  then have A: "rev (take (Suc i) (pairs h1 b a)) = sort_key (\<lambda>p. g (fst p)) (rev (take (Suc i) ps0))"
    using h1(5) Suc.prems(5) i Suc.prems(3) by (simp add: take_Suc_conv_app_nth)
  have B: "drop (Suc i) (pairs h1 b a) = drop (Suc i) ps0"
    using h1(6) Suc.prems(6) by (metis drop_Suc tl_drop)
  have "d = n - Suc i" using Suc.hyps(2) by simp
  from Suc.hyps(1)[OF this _ _ Suc.prems(3) _ A B] h1(3,4) Suc.prems(1,2) i
  obtain h' where h': "insertionSort_outer h1 ?m 0 n (Suc i) = Inr h'"
      "\<forall>x. x \<noteq> a \<and> x \<noteq> b \<longrightarrow> h' x = h1 x"
      "length (h' b) = n" "length (h' a) = n"
      "pairs h' b a = rev (sort_key (\<lambda>p. g (fst p)) (rev ps0))"
    by auto
  have "insertionSort_outer h ?m 0 n i = Inr h'"
    using i h1(1) h'(1) by (subst insertionSort_outer.simps) simp
  moreover have "\<forall>x. x \<noteq> a \<and> x \<noteq> b \<longrightarrow> h' x = h x"
    using h'(2) h1(2) by simp
  ultimately show ?case
    using h'(3,4,5) by blast
qed

lemma Stable_sort:
  fixes g :: "'a \<Rightarrow> 'k::linorder"
  assumes "b \<noteq> a" "length (h a) = length (h b)"
  shows "\<exists>h'. multiSortStable h b [a] (\<lambda>x y. g y < g x) = Inr h'
       \<and> (\<forall>x. x \<noteq> a \<and> x \<noteq> b \<longrightarrow> h' x = h x)
       \<and> length (h' b) = length (h b) \<and> length (h' a) = length (h b)
       \<and> zip (h' b) (h' a) = rev (sort_key (\<lambda>p. g (fst p)) (rev (zip (h b) (h a))))"
proof (cases "h b")
  case Nil
  then show ?thesis
    using assms by (simp add: multiSortStable_def Stable_def insertionSort_def Len_def
        insertionSort_outer.simps)
next
  case (Cons x xs)
  let ?n = "length (h b)"
  have n: "1 \<le> ?n" using Cons by simp
  have lp: "length (pairs h b a) = ?n" using assms by (simp add: pairs_def)
  then have "pairs h b a \<noteq> []" using Cons by auto
  then have "rev (take 1 (pairs h b a)) = sort_key (\<lambda>p. g (fst p)) (rev (take 1 (pairs h b a)))"
    by (cases "pairs h b a") simp_all
  from outer_sort[OF assms(1,2) refl lp n this refl]
  show ?thesis
    by (simp add: multiSortStable_def Stable_def insertionSort_def Len_def pairs_def)
qed


lemma mset_byDepth: "mset (byDepth ps) = mset ps"
  by (simp add: byDepth_def)

lemma set_byDepth: "set (byDepth ps) = set ps"
  by (simp add: byDepth_def)

lemma length_byDepth: "length (byDepth ps) = length ps"
  by (simp add: byDepth_def)

lemma sorted_byDepth: "sorted_wrt (\<lambda>p q. depth (fst q) \<le> depth (fst p)) (byDepth ps)"
proof -
  have "sorted (map (\<lambda>p. depth (fst p)) (sort_key (\<lambda>p. depth (fst p)) (rev ps)))"
    by (rule sorted_sort_key)
  then show ?thesis
    by (simp add: byDepth_def sorted_map sorted_wrt_rev)
qed

lemma stable_byDepth:
  "filter (\<lambda>p. depth (fst p) = d) (byDepth ps) = filter (\<lambda>p. depth (fst p) = d) ps"
proof -
  have "filter (\<lambda>p. depth (fst p) = d) (sort_key (\<lambda>p. depth (fst p)) (rev ps))
      = filter (\<lambda>p. depth (fst p) = d) (rev ps)"
    by (rule sort_key_stable)
  then have "rev (filter (\<lambda>p. depth (fst p) = d) (sort_key (\<lambda>p. depth (fst p)) (rev ps)))
      = filter (\<lambda>p. depth (fst p) = d) ps"
    by (simp add: rev_filter)
  then show ?thesis
    by (simp add: byDepth_def rev_filter)
qed

lemma stable_sort_unique:
  assumes "mset ys = mset ps"
    and "sorted_wrt (\<lambda>p q. depth (fst q) \<le> depth (fst p)) ys"
    and "\<And>d. filter (\<lambda>p. depth (fst p) = d) ys = filter (\<lambda>p. depth (fst p) = d) ps"
  shows "ys = byDepth ps"
proof -
  have "sort_key (\<lambda>p. depth (fst p)) (rev ps) = rev ys"
  proof (rule properties_for_sort_key)
    show "mset (rev ys) = mset (rev ps)" using assms(1) by simp
    show "sorted (map (\<lambda>p. depth (fst p)) (rev ys))"
      using assms(2) by (simp add: sorted_map sorted_wrt_rev)
    fix k
    have "filter (\<lambda>p. depth (fst p) = depth (fst k)) ys
        = filter (\<lambda>p. depth (fst p) = depth (fst k)) ps"
      by (rule assms(3))
    then have "filter (\<lambda>p. depth (fst p) = depth (fst k)) (rev ys)
        = filter (\<lambda>p. depth (fst p) = depth (fst k)) (rev ps)"
      by (simp add: rev_filter[symmetric])
    then show "filter (\<lambda>x. depth (fst k) = depth (fst x)) (rev ys)
        = filter (\<lambda>x. depth (fst k) = depth (fst x)) (rev ps)"
      by (simp add: eq_commute)
  qed
  then show ?thesis by (simp add: byDepth_def)
qed

lemma multiSortStable_byDepth:
  assumes "b \<noteq> a" "length (h a) = length (h b)"
  shows "\<exists>h'. multiSortStable h b [a] (\<lambda>x y. depth x > depth y) = Inr h'
       \<and> (\<forall>x. x \<noteq> a \<and> x \<noteq> b \<longrightarrow> h' x = h x)
       \<and> length (h' b) = length (h b) \<and> length (h' a) = length (h b)
       \<and> zip (h' b) (h' a) = byDepth (zip (h b) (h a))"
  using Stable_sort[OF assms, where g = depth] by (simp add: byDepth_def)

lemma classify_emitted: "classify b a acc = acc @ emitted b a"
  by (simp add: classify_def emitted_def Let_def)

lemma classify_loop_indices:
  "\<forall>i \<in> set js. i < length bs \<and> i < length as \<Longrightarrow>
   classify_loop bs as js acc = Inr (acc @ concat (map (\<lambda>i. emitted (bs ! i) (as ! i)) js))"
proof (induction js arbitrary: acc)
  case Nil
  then show ?case by simp
next
  case (Cons j js)
  then show ?case by (simp add: classify_emitted[of _ _ acc])
qed

lemma classify_loop_zip:
  assumes "length as = length bs"
  shows "classify_loop bs as [0..<length bs] [] = Inr (concat (map (\<lambda>(b, a). emitted b a) (zip bs as)))"
proof -
  have "map (\<lambda>i. emitted (bs ! i) (as ! i)) [0..<length bs] = map (\<lambda>(b, a). emitted b a) (zip bs as)"
    using assms by (intro nth_equalityI) simp_all
  then show ?thesis
    using assms by (simp add: classify_loop_indices)
qed

lemma parseInstructions_byDepth:
  assumes "b \<noteq> a" "length (h a) = length (h b)"
  shows "\<exists>h'. parseInstructions h b a =
            Inr (concat (map (\<lambda>(x, y). emitted x y) (byDepth (zip (h b) (h a)))), h')
       \<and> (\<forall>x. x \<noteq> a \<and> x \<noteq> b \<longrightarrow> h' x = h x)
       \<and> length (h' b) = length (h b) \<and> length (h' a) = length (h b)
       \<and> zip (h' b) (h' a) = byDepth (zip (h b) (h a))"
proof -
  from multiSortStable_byDepth[OF assms] obtain h' where
    h': "multiSortStable h b [a] (\<lambda>x y. depth x > depth y) = Inr h'"
      "\<forall>x. x \<noteq> a \<and> x \<noteq> b \<longrightarrow> h' x = h x"
      "length (h' b) = length (h b)" "length (h' a) = length (h b)"
      "zip (h' b) (h' a) = byDepth (zip (h b) (h a))"
    by blast
  have "classify_loop (h' b) (h' a) [0..<length (h' b)] [] =
      Inr (concat (map (\<lambda>(x, y). emitted x y) (zip (h' b) (h' a))))"
    using h'(3,4) by (intro classify_loop_zip) simp
  then have "parseInstructions h b a =
      Inr (concat (map (\<lambda>(x, y). emitted x y) (byDepth (zip (h b) (h a)))), h')"
    using h'(1,5) by (simp add: parseInstructions_def)
  then show ?thesis
    using h'(2,3,4,5) by blast
qed

section \<open>What one pair of lines emits\<close>

lemma origin_emitted: "x \<in> set (emitted b a) \<Longrightarrow> origin x = TrimSpace b"
  by (auto simp: emitted_def classify_def Let_def split: if_splits)

lemma depth_origin_emitted: "x \<in> set (emitted b a) \<Longrightarrow> depth (origin x) = depth b"
  by (simp add: origin_emitted depth_TrimSpace)

lemma filter_emitted:
  "filter (\<lambda>x. depth (origin x) = d) (emitted b a) = (if depth b = d then emitted b a else [])"
  by (auto simp: filter_empty_conv depth_origin_emitted intro!: filter_True)

lemma filter_concat_emitted:
  "filter (\<lambda>x. depth (origin x) = d) (concat (map (\<lambda>(b, a). emitted b a) ps))
     = concat (map (\<lambda>(b, a). emitted b a) (filter (\<lambda>(b, a). depth b = d) ps))"
  by (induction ps) (auto simp: filter_emitted)

lemma sorted_wrt_all: "(\<And>x y. x \<in> set xs \<Longrightarrow> y \<in> set xs \<Longrightarrow> P x y) \<Longrightarrow> sorted_wrt P xs"
  by (induction xs) auto

lemma sorted_concat_emitted:
  "sorted_wrt (\<lambda>p q. depth (fst q) \<le> depth (fst p)) ps \<Longrightarrow>
   sorted_wrt (\<lambda>x y. depth (origin y) \<le> depth (origin x)) (concat (map (\<lambda>(b, a). emitted b a) ps))"
proof (induction ps)
  case Nil
  then show ?case by simp
next
  case (Cons p ps)
  obtain b a where p: "p = (b, a)" by (cases p)
  have 1: "sorted_wrt (\<lambda>x y. depth (origin y) \<le> depth (origin x)) (emitted b a)"
    by (rule sorted_wrt_all) (simp add: depth_origin_emitted)
  have 2: "\<forall>x \<in> set (emitted b a). \<forall>y \<in> set (concat (map (\<lambda>(b, a). emitted b a) ps)).
      depth (origin y) \<le> depth (origin x)"
    using Cons.prems p by (fastforce simp: depth_origin_emitted)
  show ?case
    using Cons 1 2 p by (simp add: sorted_wrt_append)
qed

lemma emitted_copy:
  assumes "HasPrefix (TrimSpace a) ''copy ''"
  shows "emitted b a = [Copy (TrimSpace b) (TrimSpace (drop (length ''copy '') (TrimSpace a)))]"
proof -
  from assms obtain r where r: "TrimSpace a = ''copy '' @ r"
    by (auto simp: HasPrefix_def prefix_def)
  then have "TrimPrefix (TrimSpace a) cmdCopy = CHR '' '' # r"
    by (simp add: TrimPrefix_def HasPrefix_def cmdCopy_def)
  then have "TrimSpace (TrimPrefix (TrimSpace a) cmdCopy) = TrimSpace (drop (length ''copy '') (TrimSpace a))"
    using r by (simp add: TrimSpace_space)
  then show ?thesis
    using assms by (simp add: emitted_def classify_def Let_def cmdCopy_def)
qed

lemma emitted_remove:
  assumes "TrimSpace a = []"
  shows "emitted b a = [Remove (TrimSpace b)]"
  using assms by (simp add: emitted_def classify_def Let_def HasPrefix_def cmdCopy_def)

lemma emitted_unchanged:
  assumes "TrimSpace s \<noteq> []" "\<not> HasPrefix (TrimSpace s) ''copy ''"
  shows "emitted s s = []"
  using assms by (simp add: emitted_def classify_def Let_def cmdCopy_def)

lemma parseInstructions_pairs:
  assumes "b \<noteq> a" "length (h a) = length (h b)"
  shows "\<exists>instructions h' ps. parseInstructions h b a = Inr (instructions, h')
       \<and> mset ps = mset (zip (h b) (h a))
       \<and> instructions = concat (map (\<lambda>(x, y). emitted x y) ps)"
  using parseInstructions_byDepth[OF assms] mset_byDepth by blast

lemma emitted_in_instructions:
  assumes "mset ps = mset (zip bs as)" "length as = length bs" "i < length bs"
    "x \<in> set (emitted (bs ! i) (as ! i))"
  shows "x \<in> set (concat (map (\<lambda>(x, y). emitted x y) ps))"
proof -
  have "(bs ! i, as ! i) \<in> set (zip bs as)"
    using assms(2,3) by (auto simp: set_zip)
  then have "(bs ! i, as ! i) \<in> set ps"
    using assms(1) by (metis set_mset_mset)
  then show ?thesis
    using assms(4) by auto
qed

section \<open>The order of the instructions\<close>

text \<open>
  C1. For two distinct slices of equal length, \<open>parseInstructions\<close> returns a list of
  instructions in non-increasing depth of the line of the before list each one comes from
  (\<open>origin\<close>: the trimmed line, of the same depth as the untrimmed one by
  \<open>depth_TrimSpace\<close>), and the sort is stable: for every depth \<open>d\<close>, the instructions of
  depth \<open>d\<close> are, in this order, what the pairs whose before line has depth \<open>d\<close> emit
  in the order of the input.
\<close>

theorem instructions_in_depth_order:
  assumes "before \<noteq> after" and "length (h after) = length (h before)"
  shows "\<exists>instructions h'. parseInstructions h before after = Inr (instructions, h')
     \<and> sorted_wrt (\<lambda>x y. depth (origin y) \<le> depth (origin x)) instructions
     \<and> (\<forall>d. filter (\<lambda>x. depth (origin x) = d) instructions =
            concat (map (\<lambda>(b, a). emitted b a)
              (filter (\<lambda>(b, a). depth b = d) (zip (h before) (h after)))))"
proof -
  let ?ps = "zip (h before) (h after)"
  let ?is = "concat (map (\<lambda>(x, y). emitted x y) (byDepth ?ps))"
  from parseInstructions_byDepth[OF assms] obtain h' where
    "parseInstructions h before after = Inr (?is, h')"
    by blast
  moreover have "sorted_wrt (\<lambda>x y. depth (origin y) \<le> depth (origin x)) ?is"
    by (rule sorted_concat_emitted[OF sorted_byDepth])
  moreover have "filter (\<lambda>x. depth (origin x) = d) ?is =
      concat (map (\<lambda>(b, a). emitted b a) (filter (\<lambda>(b, a). depth b = d) ?ps))" for d
  proof -
    have "filter (\<lambda>(b, a). depth b = d) (byDepth ?ps) = filter (\<lambda>(b, a). depth b = d) ?ps"
      using stable_byDepth[of d ?ps] by (simp add: case_prod_unfold)
    then show ?thesis
      by (simp only: filter_concat_emitted)
  qed
  ultimately show ?thesis
    by blast
qed

theorem instructions_in_depth_order_witness:
  "(0::nat) \<noteq> 1 \<and>
   (\<exists>instructions h'.
      parseInstructions ((\<lambda>_. [])(0 := [''a'', ''b/c'', ''d''], 1 := [''x'', ''b/y'', ''''])) 0 1
        = Inr (instructions, h')
     \<and> sorted_wrt (\<lambda>x y. depth (origin y) \<le> depth (origin x)) instructions
     \<and> (\<forall>d. filter (\<lambda>x. depth (origin x) = d) instructions =
            concat (map (\<lambda>(b, a). emitted b a)
              (filter (\<lambda>(b, a). depth b = d) (zip [''a'', ''b/c'', ''d''] [''x'', ''b/y'', '''']))))) "
  using instructions_in_depth_order[of 0 1 "(\<lambda>_. [])(0 := [''a'', ''b/c'', ''d''], 1 := [''x'', ''b/y'', ''''])"]
  by simp

section \<open>The documented scenario\<close>

text \<open>
  C2. Before \<open>["a", "a/x"]\<close> and after \<open>["", "copy a/y"]\<close>: the sort puts the pair of
  \<open>a/x\<close> first, and the instructions are the copy of \<open>a/x\<close> to \<open>a/y\<close>, then the removal
  of \<open>a\<close>. The two slices are left in the sorted order.
\<close>

theorem scenario_copy_then_remove:
  "(case parseInstructions ((\<lambda>_. [])(0 := [''a'', ''a/x''], 1 := ['''', ''copy a/y''])) 0 1 of
      Inl e \<Rightarrow> None
    | Inr (instructions, h') \<Rightarrow> Some (instructions, h' 0, h' 1))
   = Some ([Copy ''a/x'' ''a/y'', Remove ''a''], [''a/x'', ''a''], [''copy a/y'', ''''])"
  by code_simp

section \<open>Classification\<close>

text \<open>
  C3. A pair whose trimmed after line starts with \<open>copy\<close> and a space emits one
  instruction, a copy from the trimmed before line to what is left of the trimmed after
  line once the prefix and the white space around the rest are removed. No condition is
  put on the before line: the copy is emitted first, also where the destination equals
  the before line (as in the example below). The instruction is in the list returned, which is the
  concatenation of what the pairs emit, in some order of the pairs.
\<close>

theorem copy_directive_gives_copy:
  assumes "before \<noteq> after" and "length (h after) = length (h before)"
    and "i < length (h before)"
    and "HasPrefix (TrimSpace (h after ! i)) ''copy ''"
  shows "emitted (h before ! i) (h after ! i) =
           [Copy (TrimSpace (h before ! i))
                 (TrimSpace (drop (length ''copy '') (TrimSpace (h after ! i))))]
     \<and> (\<exists>instructions h' ps. parseInstructions h before after = Inr (instructions, h')
          \<and> mset ps = mset (zip (h before) (h after))
          \<and> instructions = concat (map (\<lambda>(b, a). emitted b a) ps)
          \<and> Copy (TrimSpace (h before ! i))
                  (TrimSpace (drop (length ''copy '') (TrimSpace (h after ! i))))
               \<in> set instructions)"
proof -
  let ?c = "Copy (TrimSpace (h before ! i))
                 (TrimSpace (drop (length ''copy '') (TrimSpace (h after ! i))))"
  have e: "emitted (h before ! i) (h after ! i) = [?c]"
    by (rule emitted_copy[OF assms(4)])
  from parseInstructions_pairs[OF assms(1,2)] obtain instructions h' ps where
    p: "parseInstructions h before after = Inr (instructions, h')"
       "mset ps = mset (zip (h before) (h after))"
       "instructions = concat (map (\<lambda>(b, a). emitted b a) ps)"
    by blast
  have "?c \<in> set instructions"
    unfolding p(3) by (rule emitted_in_instructions[OF p(2) assms(2,3)]) (simp add: e)
  with e p show ?thesis
    by blast
qed

theorem copy_directive_gives_copy_witness:
  "HasPrefix (TrimSpace ''copy x'') ''copy ''
   \<and> emitted ''x'' ''copy x'' = [Copy ''x'' ''x'']
   \<and> (\<exists>instructions h' ps.
         parseInstructions ((\<lambda>_. [])(0 := [''x''], 1 := [''copy x''])) 0 1 = Inr (instructions, h')
       \<and> mset ps = mset (zip [''x''] [''copy x''])
       \<and> instructions = concat (map (\<lambda>(b, a). emitted b a) ps)
       \<and> Copy ''x'' ''x'' \<in> set instructions)"
proof -
  let ?h = "(\<lambda>_. [])(0 := [''x''], 1 := [''copy x'']) :: string heap"
  have p: "HasPrefix (TrimSpace ''copy x'') ''copy ''"
    by code_simp
  have t: "TrimSpace ''x'' = ''x''" "TrimSpace (drop (length ''copy '') (TrimSpace ''copy x'')) = ''x''"
    by code_simp+
  from copy_directive_gives_copy[of 0 1 ?h 0] p t show ?thesis
    by auto
qed

text \<open>
  C4, as stated, fails: a line that is unchanged and starts with \<open>copy\<close> and a space
  is taken for a copy directive, and an unchanged blank line for a removal. Before
  \<open>["copy a", " "]\<close> and the same lines after give a copy of \<open>copy a\<close> to \<open>a\<close> and the
  removal of the empty path.
\<close>

theorem unchanged_copy_line_counterexample:
  "(case parseInstructions ((\<lambda>_. [])(0 := [''copy a'', '' ''], 1 := [''copy a'', '' ''])) 0 1 of
      Inl e \<Rightarrow> None
    | Inr (instructions, h') \<Rightarrow> Some instructions)
   = Some [Copy ''copy a'' ''a'', Remove []]"
  by code_simp

text \<open>
  C4, amended. When every after line equals its before line, and no line, once trimmed,
  is empty or starts with \<open>copy\<close> and a space, \<open>parseInstructions\<close> returns the empty
  list of instructions.
\<close>

theorem unchanged_lines_give_nothing:
  assumes "before \<noteq> after" and "h after = h before"
    and "\<forall>s \<in> set (h before). TrimSpace s \<noteq> [] \<and> \<not> HasPrefix (TrimSpace s) ''copy ''"
  shows "\<exists>h'. parseInstructions h before after = Inr ([], h')"
proof -
  have len: "length (h after) = length (h before)" using assms(2) by simp
  from parseInstructions_pairs[OF assms(1) len] obtain instructions h' ps where
    p: "parseInstructions h before after = Inr (instructions, h')"
       "mset ps = mset (zip (h before) (h after))"
       "instructions = concat (map (\<lambda>(b, a). emitted b a) ps)"
    by blast
  have "set ps = set (zip (h before) (h before))"
    using p(2) assms(2) by (metis set_mset_mset)
  then have "\<forall>q \<in> set ps. fst q \<in> set (h before) \<and> snd q = fst q"
    by (auto simp: set_zip)
  then have "\<forall>q \<in> set ps. (case q of (b, a) \<Rightarrow> emitted b a) = []"
    using assms(3) by (auto simp: emitted_unchanged)
  then have "instructions = []"
    by (simp add: p(3))
  with p(1) show ?thesis by blast
qed

theorem unchanged_lines_give_nothing_witness:
  "TrimSpace ''a/b'' \<noteq> [] \<and> \<not> HasPrefix (TrimSpace ''a/b'') ''copy ''
   \<and> TrimSpace ''c'' \<noteq> [] \<and> \<not> HasPrefix (TrimSpace ''c'') ''copy ''
   \<and> (\<exists>h'. parseInstructions ((\<lambda>_. [])(0 := [''a/b'', ''c''], 1 := [''a/b'', ''c''])) 0 1 = Inr ([], h'))"
proof -
  let ?h = "(\<lambda>_. [])(0 := [''a/b'', ''c''], 1 := [''a/b'', ''c'']) :: string heap"
  have t: "\<forall>s \<in> set [''a/b'', ''c'']. TrimSpace s \<noteq> [] \<and> \<not> HasPrefix (TrimSpace s) ''copy ''"
    by code_simp
  from unchanged_lines_give_nothing[of 0 1 ?h] t show ?thesis
    by simp
qed

text \<open>
  C5. A pair whose after line is empty or white space only emits one instruction, the
  removal of the trimmed before line, hence no rename and no copy; the removal is in the
  list returned, which is the concatenation of what the pairs emit, in some order of the
  pairs.
\<close>

theorem blank_line_gives_remove:
  assumes "before \<noteq> after" and "length (h after) = length (h before)"
    and "i < length (h before)"
    and "whitespace_only (h after ! i)"
  shows "emitted (h before ! i) (h after ! i) = [Remove (TrimSpace (h before ! i))]
     \<and> (\<exists>instructions h' ps. parseInstructions h before after = Inr (instructions, h')
          \<and> mset ps = mset (zip (h before) (h after))
          \<and> instructions = concat (map (\<lambda>(b, a). emitted b a) ps)
          \<and> Remove (TrimSpace (h before ! i)) \<in> set instructions)"
proof -
  have e: "emitted (h before ! i) (h after ! i) = [Remove (TrimSpace (h before ! i))]"
    by (rule emitted_remove[OF whitespace_only_TrimSpace[OF assms(4)]])
  from parseInstructions_pairs[OF assms(1,2)] obtain instructions h' ps where
    p: "parseInstructions h before after = Inr (instructions, h')"
       "mset ps = mset (zip (h before) (h after))"
       "instructions = concat (map (\<lambda>(b, a). emitted b a) ps)"
    by blast
  have "Remove (TrimSpace (h before ! i)) \<in> set instructions"
    unfolding p(3) by (rule emitted_in_instructions[OF p(2) assms(2,3)]) (simp add: e)
  with e p show ?thesis
    by blast
qed

theorem blank_line_gives_remove_witness:
  "whitespace_only ''  ''
   \<and> emitted ''x'' ''  '' = [Remove ''x'']
   \<and> (\<exists>instructions h' ps.
         parseInstructions ((\<lambda>_. [])(0 := [''x''], 1 := [''  ''])) 0 1 = Inr (instructions, h')
       \<and> mset ps = mset (zip [''x''] [''  ''])
       \<and> instructions = concat (map (\<lambda>(b, a). emitted b a) ps)
       \<and> Remove ''x'' \<in> set instructions)"
proof -
  let ?h = "(\<lambda>_. [])(0 := [''x''], 1 := [''  '']) :: string heap"
  have sp: "'' '' \<in> set whiteSpace"
    by (simp add: whiteSpace_def)
  have w: "whitespace_only ''  ''"
    using whitespace_only.more[OF sp whitespace_only.more[OF sp whitespace_only.none]] by simp
  have t: "TrimSpace ''x'' = ''x''"
    by code_simp
  from blank_line_gives_remove[of 0 1 ?h 0] w t show ?thesis
    by auto
qed

section \<open>The run: mismatch of the lengths, failing instruction\<close>

lemma swap_in_total:
  assumes "i < length (h d)" "j < length (h d)"
  shows "\<exists>h'. swap_in d i j h = Inr h' \<and> (\<forall>x. length (h' x) = length (h x))"
  using assms by (simp add: swap_in_def)

lemma swap_each_total:
  "\<forall>d \<in> set ds. i < length (h d) \<and> j < length (h d) \<Longrightarrow>
   \<exists>h'. swap_each ds i j h = Inr h' \<and> (\<forall>x. length (h' x) = length (h x))"
proof (induction ds arbitrary: h)
  case Nil
  then show ?case by simp
next
  case (Cons d ds)
  then obtain h1 where h1: "swap_in d i j h = Inr h1" "\<forall>x. length (h1 x) = length (h x)"
    using swap_in_total[of i h d j] by auto
  then have "\<forall>d \<in> set ds. i < length (h1 d) \<and> j < length (h1 d)"
    using Cons.prems by simp
  from Cons.IH[OF this] h1 show ?case
    by auto
qed

lemma insertionSort_inner_total:
  "length (h a) = length (h b) \<Longrightarrow> j < length (h b) \<Longrightarrow>
   \<exists>h'. insertionSort_inner h \<lparr>data = b, extra = [a], less_fn = ls\<rparr> k j = Inr h'
      \<and> (\<forall>x. length (h' x) = length (h x))"
proof (induction j arbitrary: h)
  case 0
  then show ?case by simp
next
  case (Suc j)
  let ?m = "\<lparr>data = b, extra = [a], less_fn = ls\<rparr>"
  have L: "Less h ?m (Suc j) j = Inr (ls (h b ! Suc j) (h b ! j))"
    using Suc.prems by (simp add: Less_def)
  have "\<forall>d \<in> set [b, a]. Suc j < length (h d) \<and> j < length (h d)"
    using Suc.prems by simp
  from swap_each_total[OF this] obtain h1 where
    h1: "Swap h ?m (Suc j) j = Inr h1" "\<forall>x. length (h1 x) = length (h x)"
    by (auto simp: Swap_def)
  then have "length (h1 a) = length (h1 b)" "j < length (h1 b)"
    using Suc.prems by simp_all
  from Suc.IH[OF this] obtain h' where
    "insertionSort_inner h1 ?m k j = Inr h'" "\<forall>x. length (h' x) = length (h1 x)"
    by blast
  then show ?case
    using L h1 by (cases "ls (h b ! Suc j) (h b ! j)") auto
qed

lemma insertionSort_outer_total:
  "length (h a) = length (h b) \<Longrightarrow> n \<le> length (h b) \<Longrightarrow>
   \<exists>h'. insertionSort_outer h \<lparr>data = b, extra = [a], less_fn = ls\<rparr> k n i = Inr h'
      \<and> (\<forall>x. length (h' x) = length (h x))"
proof (induction "n - i" arbitrary: h i)
  case 0
  then show ?case by (simp add: insertionSort_outer.simps)
next
  case (Suc d)
  let ?m = "\<lparr>data = b, extra = [a], less_fn = ls\<rparr>"
  have i: "i < n" using Suc.hyps(2) by simp
  then have "i < length (h b)" using Suc.prems by simp
  from insertionSort_inner_total[OF Suc.prems(1) this] obtain h1 where
    h1: "insertionSort_inner h ?m k i = Inr h1" "\<forall>x. length (h1 x) = length (h x)"
    by blast
  have "d = n - Suc i" using Suc.hyps(2) by simp
  from Suc.hyps(1)[OF this, of h1] h1(2) Suc.prems obtain h' where
    "insertionSort_outer h1 ?m k n (Suc i) = Inr h'" "\<forall>x. length (h' x) = length (h1 x)"
    by auto
  then show ?case
    using i h1 by (subst insertionSort_outer.simps) simp
qed

lemma classify_loop_total:
  assumes "length as = length bs"
  shows "\<exists>instructions. classify_loop bs as [0..<length bs] [] = Inr instructions"
  using assms by (simp add: classify_loop_indices)

lemma parseInstructions_total:
  assumes "length (h a) = length (h b)"
  shows "\<exists>instructions h'. parseInstructions h b a = Inr (instructions, h')"
proof -
  from insertionSort_outer_total[OF assms order_refl] obtain h' where
    h': "insertionSort_outer h \<lparr>data = b, extra = [a], less_fn = (\<lambda>x y. depth y < depth x)\<rparr>
           0 (length (h b)) (Suc 0) = Inr h'"
      "\<forall>x. length (h' x) = length (h x)"
    by blast
  then have "length (h' a) = length (h' b)" using assms by simp
  from classify_loop_total[OF this] obtain instructions where
    "classify_loop (h' b) (h' a) [0..<length (h' b)] [] = Inr instructions"
    by blast
  then show ?thesis
    using h'(1) by (simp add: parseInstructions_def multiSortStable_def Stable_def
        insertionSort_def Len_def)
qed

lemma execute_all_fails:
  "execute_all sys False pre lg w = (None, logged, w2) \<Longrightarrow>
   Execute sys x w2 = (Some err, w3) \<Longrightarrow>
   execute_all sys False (pre @ x # rest) lg w = (Some (Wrap ''executing'' err), logged @ [String x], w3)"
proof (induction pre arbitrary: lg w)
  case Nil
  then show ?case by simp
next
  case (Cons p pre)
  then show ?case
    by (auto simp: Let_def split: prod.splits option.splits)
qed

lemma execute_all_logged:
  "execute_all sys False pre lg w = (None, logged, w2) \<Longrightarrow> logged = lg @ map String pre"
proof (induction pre arbitrary: lg w)
  case Nil
  then show ?case by simp
next
  case (Cons p pre)
  show ?case
    using Cons.prems Cons.IH[of "lg @ [String p]"]
    by (auto simp: Let_def split: prod.splits option.splits)
qed

lemma execute_all_dryRun:
  "execute_all sys True instructions lg w = (None, lg @ map String instructions, w)"
  by (induction instructions arbitrary: lg) (simp_all add: Let_def)

lemma editPaths_allocates:
  assumes "editPaths sys tmp editor before mem w = (Inr after, mem1, w1)"
  shows "after = next_free mem" and "next_free mem1 = Suc (next_free mem)"
    and "\<forall>x. x \<noteq> after \<longrightarrow> arrays mem1 x = arrays mem x"
  using assms
  by (auto simp: editPaths_def new_slice_def Let_def split: prod.splits option.splits)

text \<open>
  C6. When the editor session returns a slice whose length differs from that of the before
  slice, \<open>run\<close> returns the line count error with both lengths; nothing is logged, hence no
  instruction is derived or executed; the memory is the one the editor session left, with
  the before slice as it was (not sorted); after the session the world only sees the two
  deferred calls. The example has three lines before and two after. And for two slices
  of equal length (the same slice twice included) \<open>parseInstructions\<close> returns
  instructions: it neither returns an error nor panics.
\<close>

theorem length_mismatch_stops_run:
  assumes "os_CreateTemp sys program w = (Inr tmp, w0)"
    and "editPaths sys tmp editor before mem w0 = (Inr after, mem1, w1)"
    and "length (arrays mem1 after) \<noteq> length (arrays mem1 before)"
    and "before < next_free mem"
    and "length (h a) = length (h b)"
  shows "run sys before editor dryRun mem w =
           (Some (LineCountMismatch (length (arrays mem1 before)) (length (arrays mem1 after))),
            [], mem1, snd (os_Remove sys tmp (snd (tmp_Close sys tmp w1))))
     \<and> arrays mem1 before = arrays mem before
     \<and> (\<exists>instructions h'. parseInstructions h b a = Inr (instructions, h'))"
proof -
  have "arrays mem1 before = arrays mem before"
    using editPaths_allocates(1,3)[OF assms(2)] assms(4) by simp
  then show ?thesis
    using assms(1-3) parseInstructions_total[OF assms(5)]
    by (simp add: run_def run_body_def)
qed

theorem length_mismatch_stops_run_witness:
  "run (scripted [''a'', ''b''] None (\<lambda>c. False) (\<lambda>p. 0)) 0 ''vi'' False
       \<lparr>arrays = (\<lambda>_. [])(0 := [''a'', ''b'', ''c'']), next_free = 1\<rparr> []
   = (Some (LineCountMismatch 3 2), [],
      \<lparr>arrays = (\<lambda>_. [])(0 := [''a'', ''b'', ''c''], 1 := [''a'', ''b'']), next_free = 2\<rparr>,
      [''CreateTemp'', ''WriteString a'' @ [CHR 0x0A], ''WriteString b'' @ [CHR 0x0A],
       ''WriteString c'' @ [CHR 0x0A], ''Run vi'', ''Seek'', ''Scan'', ''Close'',
       ''Remove /tmp/vi-paths''])
   \<and> (\<exists>instructions h'.
         parseInstructions ((\<lambda>_. [])(0 := [''a'', ''b''], 1 := [''b'', ''c''])) 0 1
           = Inr (instructions, h'))"
proof -
  let ?sys = "scripted [''a'', ''b''] None (\<lambda>c. False) (\<lambda>p. 0)"
  let ?mem = "\<lparr>arrays = (\<lambda>_. [])(0 := [''a'', ''b'', ''c'']), next_free = 1\<rparr>"
  let ?mem1 = "\<lparr>arrays = (\<lambda>_. [])(0 := [''a'', ''b'', ''c''], 1 := [''a'', ''b'']), next_free = 2\<rparr>"
  let ?w1 = "[''CreateTemp'', ''WriteString a'' @ [CHR 0x0A], ''WriteString b'' @ [CHR 0x0A],
       ''WriteString c'' @ [CHR 0x0A], ''Run vi'', ''Seek'', ''Scan'']"
  let ?h = "(\<lambda>_. [])(0 := [''a'', ''b''], 1 := [''b'', ''c'']) :: string heap"
  have 1: "os_CreateTemp ?sys program [] = (Inr ''/tmp/vi-paths'', [''CreateTemp''])"
    by (simp add: scripted_def call_value_def program_def)
  have 2: "editPaths ?sys ''/tmp/vi-paths'' ''vi'' 0 ?mem [''CreateTemp''] = (Inr 1, ?mem1, ?w1)"
    by (simp add: editPaths_def scripted_def call_def new_slice_def)
  have 3: "length (arrays ?mem1 1) \<noteq> length (arrays ?mem1 0)"
    by simp
  have 4: "0 < next_free ?mem"
    by simp
  have 5: "length (?h 1) = length (?h 0)"
    by simp
  have 6: "snd (os_Remove ?sys ''/tmp/vi-paths'' (snd (tmp_Close ?sys ''/tmp/vi-paths'' ?w1)))
      = ?w1 @ [''Close'', ''Remove /tmp/vi-paths'']"
    by (simp add: scripted_def call_def)
  note r = length_mismatch_stops_run[OF 1 2 3 4 5, of False]
  from r have r1: "run ?sys 0 ''vi'' False ?mem [] =
      (Some (LineCountMismatch (length (arrays ?mem1 0)) (length (arrays ?mem1 1))), [], ?mem1,
       snd (os_Remove ?sys ''/tmp/vi-paths'' (snd (tmp_Close ?sys ''/tmp/vi-paths'' ?w1))))"
    by (rule conjunct1)
  from r have r2: "\<exists>instructions h'. parseInstructions ?h 0 1 = Inr (instructions, h')"
    by blast
  show ?thesis
    unfolding r1 6 using r2 by simp
qed

text \<open>
  C7. Let the instructions derived be \<open>pre\<close>, then \<open>x\<close>, then \<open>rest\<close>. If the instructions
  of \<open>pre\<close> execute without error, from the world \<open>w1\<close> the editor session left to the
  world \<open>w2\<close>, and \<open>Execute\<close> of \<open>x\<close> fails there and leaves the world \<open>w3\<close>, then \<open>run\<close>
  returns this error, wrapped. The log ends with \<open>x\<close>; the world returned is \<open>w3\<close> after
  the two deferred calls: it holds what \<open>pre\<close> did, and nothing of \<open>rest\<close>, which does not
  occur in the result.
\<close>

theorem failed_execute_stops_run:
  assumes "os_CreateTemp sys program w = (Inr tmp, w0)"
    and "editPaths sys tmp editor before mem w0 = (Inr after, mem1, w1)"
    and "length (arrays mem1 after) = length (arrays mem1 before)"
    and "parseInstructions (arrays mem1) before after = Inr (pre @ x # rest, h')"
    and "execute_all sys False pre [] w1 = (None, logged, w2)"
    and "Execute sys x w2 = (Some err, w3)"
  shows "run sys before editor False mem w =
           (Some (Wrap ''executing'' err), map String pre @ [String x], mem1\<lparr>arrays := h'\<rparr>,
            snd (os_Remove sys tmp (snd (tmp_Close sys tmp w3))))"
proof -
  have "execute_all sys False (pre @ x # rest) [] w1 =
      (Some (Wrap ''executing'' err), logged @ [String x], w3)"
    by (rule execute_all_fails[OF assms(5,6)])
  moreover have "logged = map String pre"
    using execute_all_logged[OF assms(5)] by simp
  ultimately show ?thesis
    using assms(1-4) by (simp add: run_def run_body_def)
qed

theorem failed_execute_stops_run_witness:
  "(case run (scripted [''x'', ''y'', ''z''] None (\<lambda>c. c = ''Rename b y'') (\<lambda>p. 0)) 0 ''vi'' False
       \<lparr>arrays = (\<lambda>_. [])(0 := [''a'', ''b'', ''c'']), next_free = 1\<rparr> [] of
      (err, logged, mem', w') \<Rightarrow> (err, logged, w'))
   = (Some (Wrap ''executing'' (Wrap ''exe rename'' (Errorf ''Rename b y''))),
      [String (Rename ''a'' ''x''), String (Rename ''b'' ''y'')],
      [''CreateTemp'', ''WriteString a'' @ [CHR 0x0A], ''WriteString b'' @ [CHR 0x0A],
       ''WriteString c'' @ [CHR 0x0A], ''Run vi'', ''Seek'', ''Scan'',
       ''MkdirAll .'', ''Rename a x'', ''MkdirAll .'', ''Rename b y'',
       ''Close'', ''Remove /tmp/vi-paths''])"
proof -
  let ?sys = "scripted [''x'', ''y'', ''z''] None (\<lambda>c. c = ''Rename b y'') (\<lambda>p. 0)"
  let ?mem = "\<lparr>arrays = (\<lambda>_. [])(0 := [''a'', ''b'', ''c'']), next_free = 1\<rparr>"
  let ?mem1 = "\<lparr>arrays = (\<lambda>_. [])(0 := [''a'', ''b'', ''c''], 1 := [''x'', ''y'', ''z'']), next_free = 2\<rparr>"
  let ?w1 = "[''CreateTemp'', ''WriteString a'' @ [CHR 0x0A], ''WriteString b'' @ [CHR 0x0A],
       ''WriteString c'' @ [CHR 0x0A], ''Run vi'', ''Seek'', ''Scan'']"
  have 1: "os_CreateTemp ?sys program [] = (Inr ''/tmp/vi-paths'', [''CreateTemp''])"
    by (simp add: scripted_def call_value_def program_def)
  have 2: "editPaths ?sys ''/tmp/vi-paths'' ''vi'' 0 ?mem [''CreateTemp''] = (Inr 1, ?mem1, ?w1)"
    by (simp add: editPaths_def scripted_def call_def new_slice_def)
  have 3: "length (arrays ?mem1 1) = length (arrays ?mem1 0)"
    by simp
  obtain instructions h' where p: "parseInstructions (arrays ?mem1) 0 1 = Inr (instructions, h')"
    using parseInstructions_total[of "arrays ?mem1" 1 0] by auto
  have "(case parseInstructions (arrays ?mem1) 0 1 of Inl e \<Rightarrow> None | Inr (is, h) \<Rightarrow> Some is)
      = Some [Rename ''a'' ''x'', Rename ''b'' ''y'', Rename ''c'' ''z'']"
    by code_simp
  with p have 4: "parseInstructions (arrays ?mem1) 0 1
      = Inr ([Rename ''a'' ''x''] @ Rename ''b'' ''y'' # [Rename ''c'' ''z''], h')"
    by simp
  have 5: "execute_all ?sys False [Rename ''a'' ''x''] [] ?w1
      = (None, [String (Rename ''a'' ''x'')], ?w1 @ [''MkdirAll .'', ''Rename a x''])"
    by (simp add: scripted_def call_def dir_of_def Separator_def)
  have 6: "Execute ?sys (Rename ''b'' ''y'') (?w1 @ [''MkdirAll .'', ''Rename a x''])
      = (Some (Wrap ''exe rename'' (Errorf ''Rename b y'')),
         ?w1 @ [''MkdirAll .'', ''Rename a x'', ''MkdirAll .'', ''Rename b y''])"
    by (simp add: scripted_def call_def dir_of_def Separator_def)
  have 7: "snd (os_Remove ?sys ''/tmp/vi-paths'' (snd (tmp_Close ?sys ''/tmp/vi-paths''
        (?w1 @ [''MkdirAll .'', ''Rename a x'', ''MkdirAll .'', ''Rename b y'']))))
      = ?w1 @ [''MkdirAll .'', ''Rename a x'', ''MkdirAll .'', ''Rename b y'', ''Close'',
               ''Remove /tmp/vi-paths'']"
    by (simp add: scripted_def call_def)
  note r = failed_execute_stops_run[OF 1 2 3 4 5 6]
  show ?thesis
    unfolding r 7 by simp
qed

section \<open>The copy of a directory\<close>

lemma modes_simps:
  "IsDir (modes ''dir'')" "IsDir (modes ''.'')" "\<not> IsDir (modes ''file'')" "\<not> IsDir (modes ''pipe'')"
  "IsRegular (modes ''file'')" "\<not> IsRegular (modes ''pipe'')"
  by (simp_all add: modes_def IsDir_def IsRegular_def ModeType_def ModeDir_def ModeNamedPipe_def
      ModeSymlink_def ModeSocket_def ModeDevice_def ModeCharDevice_def ModeIrregular_def)

text \<open>
  C8, as stated, fails in its last part: the branch that copies the contents is taken
  whenever \<open>IsDir\<close> is false, not only for a regular file. For a named pipe
  (neither a directory nor regular) \<open>Execute\<close> reads the source and writes the destination.
\<close>

theorem copy_of_named_pipe_counterexample:
  "\<not> IsDir (modes ''pipe'') \<and> \<not> IsRegular (modes ''pipe'')
   \<and> Execute (scripted [] None (\<lambda>c. False) modes) (Copy ''pipe'' ''new'') []
     = (None, [''Stat pipe'', ''Stat .'', ''MkdirAll .'', ''ReadFile pipe'', ''WriteFile new''])"
  by (simp add: modes_simps scripted_def call_def call_value_def dir_of_def Separator_def)

text \<open>
  C8, amended. Let \<open>os.Stat\<close> of \<open>from\<close> succeed. If \<open>from\<close> is a directory, \<open>Execute\<close>
  of the copy is \<open>os.MkdirAll\<close> of \<open>to\<close> with the mode of \<open>from\<close> and nothing more: its
  result is that of \<open>MkdirAll\<close> (no error when the directory is made) and the world is the
  one \<open>MkdirAll\<close> leaves, so that nothing of the directory is read or written. If \<open>from\<close>
  is no directory, regular or not, the other branch is taken: once the parent is
  examined, the parents of \<open>to\<close> exist and \<open>from\<close> is read, the contents are written to
  \<open>to\<close> with the mode of \<open>from\<close>.
\<close>

theorem copy_of_directory_is_shallow:
  assumes "os_Stat sys from w = (Inr stat, w1)"
  shows "(IsDir stat \<longrightarrow>
            Execute sys (Copy from to) w =
              (map_option (Wrap ''exe mkdirall'') (fst (os_MkdirAll sys to stat w1)),
               snd (os_MkdirAll sys to stat w1)))
     \<and> (\<not> IsDir stat \<longrightarrow>
          (\<forall>parentStat w2 w3 input w4.
             os_Stat sys (filepath_Dir sys from) w1 = (Inr parentStat, w2) \<longrightarrow>
             os_MkdirAll sys (filepath_Dir sys to) parentStat w2 = (None, w3) \<longrightarrow>
             os_ReadFile sys from w3 = (Inr input, w4) \<longrightarrow>
             Execute sys (Copy from to) w =
               (map_option (Wrap ''exe write'') (fst (os_WriteFile sys to input stat w4)),
                snd (os_WriteFile sys to input stat w4))))"
  using assms by (auto split: prod.splits option.splits)

theorem copy_of_directory_is_shallow_witness:
  "Execute (scripted [] None (\<lambda>c. False) modes) (Copy ''dir'' ''new'') []
     = (None, [''Stat dir'', ''MkdirAll new''])
   \<and> Execute (scripted [] None (\<lambda>c. False) modes) (Copy ''file'' ''new'') []
     = (None, [''Stat file'', ''Stat .'', ''MkdirAll .'', ''ReadFile file'', ''WriteFile new''])"
proof -
  let ?sys = "scripted [] None (\<lambda>c. False) modes"
  have d: "os_Stat ?sys ''dir'' [] = (Inr (modes ''dir''), [''Stat dir''])"
    by (simp add: scripted_def call_value_def)
  have f: "os_Stat ?sys ''file'' [] = (Inr (modes ''file''), [''Stat file''])"
    by (simp add: scripted_def call_value_def)
  have f2: "os_Stat ?sys (filepath_Dir ?sys ''file'') [''Stat file'']
      = (Inr (modes ''.''), [''Stat file'', ''Stat .''])"
    by (simp add: scripted_def call_value_def dir_of_def Separator_def)
  have f3: "os_MkdirAll ?sys (filepath_Dir ?sys ''new'') (modes ''.'') [''Stat file'', ''Stat .'']
      = (None, [''Stat file'', ''Stat .'', ''MkdirAll .''])"
    by (simp add: scripted_def call_def dir_of_def Separator_def)
  have f4: "os_ReadFile ?sys ''file'' [''Stat file'', ''Stat .'', ''MkdirAll .'']
      = (Inr ''contents'', [''Stat file'', ''Stat .'', ''MkdirAll .'', ''ReadFile file''])"
    by (simp add: scripted_def call_value_def)
  have "Execute ?sys (Copy ''dir'' ''new'') [] =
      (map_option (Wrap ''exe mkdirall'') (fst (os_MkdirAll ?sys ''new'' (modes ''dir'') [''Stat dir''])),
       snd (os_MkdirAll ?sys ''new'' (modes ''dir'') [''Stat dir'']))"
    using copy_of_directory_is_shallow[OF d, of "''new''"] modes_simps(1) by blast
  moreover have "Execute ?sys (Copy ''file'' ''new'') [] =
      (map_option (Wrap ''exe write'')
         (fst (os_WriteFile ?sys ''new'' ''contents'' (modes ''file'')
                [''Stat file'', ''Stat .'', ''MkdirAll .'', ''ReadFile file''])),
       snd (os_WriteFile ?sys ''new'' ''contents'' (modes ''file'')
                [''Stat file'', ''Stat .'', ''MkdirAll .'', ''ReadFile file'']))"
    using copy_of_directory_is_shallow[OF f, of "''new''"] modes_simps(3) f2 f3 f4 by blast
  moreover have "os_MkdirAll ?sys ''new'' (modes ''dir'') [''Stat dir'']
      = (None, [''Stat dir'', ''MkdirAll new''])"
    by (simp add: scripted_def call_def)
  moreover have "os_WriteFile ?sys ''new'' ''contents'' (modes ''file'')
                [''Stat file'', ''Stat .'', ''MkdirAll .'', ''ReadFile file'']
      = (None, [''Stat file'', ''Stat .'', ''MkdirAll .'', ''ReadFile file'', ''WriteFile new''])"
    by (simp add: scripted_def call_def)
  ultimately show ?thesis
    by simp
qed

section \<open>Errors of the editor session\<close>

text \<open>
  C9 does not hold of \<open>editPaths\<close>: the results of \<open>tmp.WriteString\<close> and of \<open>tmp.Seek\<close> are
  not looked at, and \<open>Err\<close> of the scanner is never called. Here the write of the only
  line fails, the seek fails, and the scanner stops on an error after the line \<open>a\<close>:
  \<open>run\<close> returns no error and logs nothing.
\<close>

theorem editor_session_errors_are_dropped:
  "(case run (scripted [''a''] (Some (Errorf ''bufio.Scanner: token too long''))
               (\<lambda>c. c = ''WriteString a'' @ [CHR 0x0A] \<or> c = ''Seek'') (\<lambda>p. 0))
          0 ''vi'' False \<lparr>arrays = (\<lambda>_. [])(0 := [''a'']), next_free = 1\<rparr> [] of
      (err, logged, mem', w') \<Rightarrow> (err, logged, w'))
   = (None, [],
      [''CreateTemp'', ''WriteString a'' @ [CHR 0x0A], ''Run vi'', ''Seek'', ''Scan'', ''Close'',
       ''Remove /tmp/vi-paths''])"
  by code_simp

section \<open>The slices of the caller\<close>

lemma sorted_before_slice:
  assumes "length as = length bs"
    and "sorted_wrt (\<lambda>p q. depth (fst q) \<le> depth (fst p)) (zip bs as)"
  shows "sorted_wrt (\<lambda>x y. depth y \<le> depth x) bs"
proof -
  have "sorted_wrt (\<lambda>x y. depth y \<le> depth x) (map fst (zip bs as))"
    using assms(2) by (simp add: sorted_wrt_map)
  then show ?thesis
    using assms(1) by simp
qed

lemma run_dryRun:
  assumes "os_CreateTemp sys program w = (Inr tmp, w0)"
    and "editPaths sys tmp editor before mem w0 = (Inr after, mem1, w1)"
    and "length (arrays mem1 after) = length (arrays mem1 before)"
    and "parseInstructions (arrays mem1) before after = Inr (instructions, h')"
  shows "run sys before editor True mem w =
           (None, map String instructions, mem1\<lparr>arrays := h'\<rparr>,
            snd (os_Remove sys tmp (snd (tmp_Close sys tmp w1))))"
  using assms by (simp add: run_def run_body_def execute_all_dryRun)

text \<open>
  C10. For two distinct slices of equal length, \<open>parseInstructions\<close> leaves the memory
  \<open>h'\<close>: both slices keep their lengths, the pairs of lines are the same (one permutation
  for both slices), the before slice is in non-increasing depth, pairs of equal depth keep
  their order, and every other array is as before. When the slices are those of \<open>run\<close>
  (the after slice returned by the editor session), a dry run logs the instructions,
  applies none (the world only sees the two deferred calls) and still returns the sorted
  memory.
\<close>

theorem slices_sorted_in_place:
  assumes "before \<noteq> after" and "length (h after) = length (h before)"
    and "os_CreateTemp sys program w = (Inr tmp, w0)"
    and "editPaths sys tmp editor before mem w0 = (Inr after, mem1, w1)"
    and "arrays mem1 = h"
  shows "\<exists>instructions h'. parseInstructions h before after = Inr (instructions, h')
     \<and> length (h' before) = length (h before) \<and> length (h' after) = length (h after)
     \<and> mset (zip (h' before) (h' after)) = mset (zip (h before) (h after))
     \<and> sorted_wrt (\<lambda>x y. depth y \<le> depth x) (h' before)
     \<and> (\<forall>d. filter (\<lambda>(b, a). depth b = d) (zip (h' before) (h' after)) =
              filter (\<lambda>(b, a). depth b = d) (zip (h before) (h after)))
     \<and> (\<forall>x. x \<noteq> before \<and> x \<noteq> after \<longrightarrow> h' x = h x)
     \<and> run sys before editor True mem w =
          (None, map String instructions, mem1\<lparr>arrays := h'\<rparr>,
           snd (os_Remove sys tmp (snd (tmp_Close sys tmp w1))))"
proof -
  let ?ps = "zip (h before) (h after)"
  from parseInstructions_byDepth[OF assms(1,2)] obtain instructions h' where
    p: "parseInstructions h before after = Inr (instructions, h')"
      "\<forall>x. x \<noteq> after \<and> x \<noteq> before \<longrightarrow> h' x = h x"
      "length (h' before) = length (h before)" "length (h' after) = length (h before)"
      "zip (h' before) (h' after) = byDepth ?ps"
    by blast
  have 1: "mset (zip (h' before) (h' after)) = mset ?ps"
    by (simp add: p(5) mset_byDepth)
  have 2: "sorted_wrt (\<lambda>x y. depth y \<le> depth x) (h' before)"
    using sorted_byDepth[of ?ps] p(3,4) by (intro sorted_before_slice[of "h' after"]) (simp_all add: p(5))
  have 3: "filter (\<lambda>(b, a). depth b = d) (zip (h' before) (h' after)) =
      filter (\<lambda>(b, a). depth b = d) ?ps" for d
    using stable_byDepth[of d ?ps] by (simp add: p(5) case_prod_unfold)
  have 4: "\<forall>x. x \<noteq> before \<and> x \<noteq> after \<longrightarrow> h' x = h x"
    using p(2) by simp
  have "run sys before editor True mem w =
          (None, map String instructions, mem1\<lparr>arrays := h'\<rparr>,
           snd (os_Remove sys tmp (snd (tmp_Close sys tmp w1))))"
    using assms(2,5) p(1) by (intro run_dryRun[OF assms(3,4)]) simp_all
  with p(1,3,4) 1 2 3 4 assms(2) show ?thesis
    by auto
qed

theorem slices_sorted_in_place_witness:
  "\<exists>instructions h'.
      parseInstructions ((\<lambda>_. [])(0 := [''a'', ''b/c''], 1 := [''x'', ''b/d''])) 0 1
        = Inr (instructions, h')
    \<and> h' 0 = [''b/c'', ''a''] \<and> h' 1 = [''b/d'', ''x'']
    \<and> run (scripted [''x'', ''b/d''] None (\<lambda>c. False) (\<lambda>p. 0)) 0 ''vi'' True
         \<lparr>arrays = (\<lambda>_. [])(0 := [''a'', ''b/c'']), next_free = 1\<rparr> []
      = (None, [String (Rename ''b/c'' ''b/d''), String (Rename ''a'' ''x'')],
         \<lparr>arrays = h', next_free = 2\<rparr>,
         [''CreateTemp'', ''WriteString a'' @ [CHR 0x0A], ''WriteString b/c'' @ [CHR 0x0A],
          ''Run vi'', ''Seek'', ''Scan'', ''Close'', ''Remove /tmp/vi-paths''])"
proof -
  let ?sys = "scripted [''x'', ''b/d''] None (\<lambda>c. False) (\<lambda>p. 0)"
  let ?mem = "\<lparr>arrays = (\<lambda>_. [])(0 := [''a'', ''b/c'']), next_free = 1\<rparr>"
  let ?h = "(\<lambda>_. [])(0 := [''a'', ''b/c''], 1 := [''x'', ''b/d'']) :: string heap"
  let ?mem1 = "\<lparr>arrays = ?h, next_free = 2\<rparr>"
  let ?w1 = "[''CreateTemp'', ''WriteString a'' @ [CHR 0x0A], ''WriteString b/c'' @ [CHR 0x0A],
       ''Run vi'', ''Seek'', ''Scan'']"
  have 1: "(0::nat) \<noteq> 1" by simp
  have 2: "length (?h 1) = length (?h 0)" by simp
  have 3: "os_CreateTemp ?sys program [] = (Inr ''/tmp/vi-paths'', [''CreateTemp''])"
    by (simp add: scripted_def call_value_def program_def)
  have 4: "editPaths ?sys ''/tmp/vi-paths'' ''vi'' 0 ?mem [''CreateTemp''] = (Inr 1, ?mem1, ?w1)"
    by (simp add: editPaths_def scripted_def call_def new_slice_def)
  have 5: "arrays ?mem1 = ?h" by simp
  have 6: "snd (os_Remove ?sys ''/tmp/vi-paths'' (snd (tmp_Close ?sys ''/tmp/vi-paths'' ?w1)))
      = ?w1 @ [''Close'', ''Remove /tmp/vi-paths'']"
    by (simp add: scripted_def call_def)
  from slices_sorted_in_place[OF 1 2 3 4 5] obtain instructions h' where
    r: "parseInstructions ?h 0 1 = Inr (instructions, h')"
       "run ?sys 0 ''vi'' True ?mem [] =
          (None, map String instructions, ?mem1\<lparr>arrays := h'\<rparr>,
           snd (os_Remove ?sys ''/tmp/vi-paths'' (snd (tmp_Close ?sys ''/tmp/vi-paths'' ?w1))))"
    by blast
  have "(case parseInstructions ?h 0 1 of Inl e \<Rightarrow> None | Inr (is, h) \<Rightarrow> Some (is, h 0, h 1))
      = Some ([Rename ''b/c'' ''b/d'', Rename ''a'' ''x''], [''b/c'', ''a''], [''b/d'', ''x''])"
    by code_simp
  with r(1) have v: "instructions = [Rename ''b/c'' ''b/d'', Rename ''a'' ''x'']"
      "h' 0 = [''b/c'', ''a'']" "h' 1 = [''b/d'', ''x'']"
    by simp_all
  show ?thesis
    apply (rule exI[of _ instructions])
    apply (rule exI[of _ h'])
    unfolding r(2) 6 using r(1) v by simp
qed

end
